theory Spec2Isabelle
  imports Main
begin

section \<open>Data model\<close>

text \<open>
  The two modules of \<^verbatim>\<open>filters-categories.js\<close> (the category selector and the filters
  manager) work on JavaScript objects that are shared by reference: the filter and group
  objects of the subscription catalog and the tag objects of the tag catalog. An object
  is modelled by its position in the array that owns it (a \<open>ref\<close>), so that a write
  through one reference is seen through every other one.

  A flag such as \<^verbatim>\<open>filter.enabled\<close> is \<^verbatim>\<open>undefined\<close>, \<^verbatim>\<open>true\<close> or \<^verbatim>\<open>false\<close>:
  a \<open>bool option\<close>, with \<open>None\<close> for \<^verbatim>\<open>undefined\<close>.
\<close>

type_synonym ref = nat

type_synonym flag = "bool option"

definition truthy :: "flag \<Rightarrow> bool" where
  "truthy b = (b = Some True)"

record tagObj =
  tagId :: int
  keyword :: string

record filterObj =
  filterId :: int
  groupId :: int
  tags :: "int list"
  languages :: "string list option"
  customUrl :: "string option"
  enabled :: flag
  installed :: flag
  loaded :: flag
  removed :: flag
  tagsDetails :: "ref list"

text \<open>
  A group: \<open>enabledG\<close> is the three-valued \<^verbatim>\<open>group.enabled\<close>; \<open>filtersG\<close> is the
  \<^verbatim>\<open>filters\<close> property that \<^verbatim>\<open>getFiltersMetadata\<close> assigns (references to filter
  objects; empty while the property is absent).
\<close>

record groupObj =
  groupIdG :: int
  enabledG :: flag
  filtersG :: "ref list"

record stateInfo =
  enabledS :: flag
  installedS :: flag
  loadedS :: flag

datatype event = FILTER_GROUP_ENABLE_DISABLE | FILTER_ENABLE_DISABLE | FILTER_ADD_REMOVE

text \<open>
  What the collaborators see, in the order it happens: a listener notification (with the
  id of the filter or group passed as payload), a call of the external loader
  \<^verbatim>\<open>filtersUpdate.loadFilterRules\<close> for a filter id, the loader calling back with its
  success flag, a call of \<^verbatim>\<open>subscriptions.updateCustomFilter\<close>, and the calls of the
  two callbacks handed to \<^verbatim>\<open>loadCustomFilter\<close>.
\<close>

datatype action =
    Notify event int
  | LoadRequested int
  | LoadFinished int bool
  | RegistrationRequested string
  | SuccessCallback ref
  | ErrorCallback

text \<open>
  A load in flight: the loader holds the closure \<^verbatim>\<open>onFilterLoaded\<close>, which captured the
  filter object, and through \<^verbatim>\<open>callback\<close> the filter id and the ids of the batch that
  are still in the array \<^verbatim>\<open>filterIds\<close>.
\<close>

datatype pending = Pending ref int "int list"

record world =
  filters :: "filterObj list"
  groups :: "groupObj list"
  tagCatalog :: "tagObj list"
  filtersState :: "int \<rightharpoonup> stateInfo"
  groupState :: "int \<rightharpoonup> flag"
  trace :: "action list"
  inflight :: "pending list"

text \<open>
  The configuration and platform queries, which the source reads from \<^verbatim>\<open>config\<close>,
  \<^verbatim>\<open>app\<close>, \<^verbatim>\<open>navigator\<close> and the tag service: they are parameters of the model.
  \<open>userAgent\<close> is \<open>None\<close> when \<^verbatim>\<open>navigator\<close> or its \<^verbatim>\<open>userAgent\<close> is undefined.
\<close>

record env =
  SAFARI_FILTER_ID :: int
  RECOMMENDED_TAG_ID :: int
  MOBILE_TAG_ID :: int
  getLocale :: string
  getFilterIdsForLanguage :: "string \<Rightarrow> int list"
  userAgent :: "string option"

datatype exn = FilterNotFound int | TypeError

datatype outcome = Normal world | Throws exn world

fun worldOf :: "outcome \<Rightarrow> world" where
  "worldOf (Normal w) = w"
| "worldOf (Throws e w) = w"

fun thrown :: "outcome \<Rightarrow> exn option" where
  "thrown (Normal w) = None"
| "thrown (Throws e w) = Some e"

section \<open>Collaborators\<close>

text \<open>\<^verbatim>\<open>Array.prototype.find\<close> with the position of the element found.\<close>

fun findIndex :: "('a \<Rightarrow> bool) \<Rightarrow> 'a list \<Rightarrow> nat option" where
  "findIndex P [] = None"
| "findIndex P (x # xs) = (if P x then Some 0 else map_option Suc (findIndex P xs))"

text \<open>
  Modelled from the spec: \<^verbatim>\<open>subscriptions.getFilter(id)\<close>, the catalog lookup
  \<open>getFilter(id) \<rightarrow> Filter | undefined\<close> over filters with unique ids; the result is
  the reference to the catalog's object.
\<close>

definition getFilter :: "world \<Rightarrow> int \<Rightarrow> ref option" where
  "getFilter w fid = findIndex (\<lambda>f. filterId f = fid) (filters w)"

text \<open>
  Modelled from the spec: \<^verbatim>\<open>subscriptions.getGroup(id)\<close>,
  \<open>getGroup(id) \<rightarrow> Group | undefined\<close>.
\<close>

definition getGroup :: "world \<Rightarrow> int \<Rightarrow> ref option" where
  "getGroup w gid = findIndex (\<lambda>g. groupIdG g = gid) (groups w)"

text \<open>
  Modelled from the spec: \<^verbatim>\<open>subscriptions.groupHasEnabledStatus(groupId)\<close>, a boolean
  that tells whether the group has ever been toggled explicitly, that is whether
  \<^verbatim>\<open>group.enabled\<close> is not \<^verbatim>\<open>undefined\<close>.
\<close>

definition groupHasEnabledStatus :: "world \<Rightarrow> int \<Rightarrow> bool" where
  "groupHasEnabledStatus w gid =
     (case getGroup w gid of None \<Rightarrow> False | Some g \<Rightarrow> enabledG (groups w ! g) \<noteq> None)"

text \<open>
  Modelled from the spec: the predicates \<^verbatim>\<open>tagService.isRecommendedFilter\<close> and
  \<^verbatim>\<open>tagService.isMobileFilter\<close>: the filter carries the \<open>recommended\<close> tag, the
  \<open>mobile\<close> tag.
\<close>

definition isRecommendedFilter :: "env \<Rightarrow> filterObj \<Rightarrow> bool" where
  "isRecommendedFilter e f = (RECOMMENDED_TAG_ID e \<in> set (tags f))"

definition isMobileFilter :: "env \<Rightarrow> filterObj \<Rightarrow> bool" where
  "isMobileFilter e f = (MOBILE_TAG_ID e \<in> set (tags f))"

text \<open>
  Modelled from the spec: \<^verbatim>\<open>collections.removeDuplicates\<close>: duplicates removed, input
  order otherwise preserved (the first occurrence of each id stays).
\<close>

fun removeDuplicates :: "'a list \<Rightarrow> 'a list" where
  "removeDuplicates [] = []"
| "removeDuplicates (x # xs) = x # removeDuplicates (filter (\<lambda>y. y \<noteq> x) xs)"

text \<open>
  Modelled from the spec: the filter state store behind \<^verbatim>\<open>listeners.notifyListeners\<close>.
  The store persists on the event: a filter event writes the three flags of the filter
  passed as payload under its id, a group event writes the group's flag.
\<close>

definition persistFilter :: "ref \<Rightarrow> world \<Rightarrow> world" where
  "persistFilter r w =
     (let f = filters w ! r
      in w\<lparr>filtersState := (filtersState w)(filterId f \<mapsto>
            \<lparr>enabledS = enabled f, installedS = installed f, loadedS = loaded f\<rparr>)\<rparr>)"

definition persistGroup :: "ref \<Rightarrow> world \<Rightarrow> world" where
  "persistGroup g w =
     (let gr = groups w ! g
      in w\<lparr>groupState := (groupState w)(groupIdG gr \<mapsto> enabledG gr)\<rparr>)"

fun payloadId :: "event \<Rightarrow> ref \<Rightarrow> world \<Rightarrow> int" where
  "payloadId FILTER_GROUP_ENABLE_DISABLE r w = groupIdG (groups w ! r)"
| "payloadId FILTER_ENABLE_DISABLE r w = filterId (filters w ! r)"
| "payloadId FILTER_ADD_REMOVE r w = filterId (filters w ! r)"

fun persist :: "event \<Rightarrow> ref \<Rightarrow> world \<Rightarrow> world" where
  "persist FILTER_GROUP_ENABLE_DISABLE r w = persistGroup r w"
| "persist FILTER_ENABLE_DISABLE r w = persistFilter r w"
| "persist FILTER_ADD_REMOVE r w = persistFilter r w"

definition notifyListeners :: "event \<Rightarrow> ref \<Rightarrow> world \<Rightarrow> world" where
  "notifyListeners ev r w =
     persist ev r (w\<lparr>trace := trace w @ [Notify ev (payloadId ev r w)]\<rparr>)"

section \<open>Category selector\<close>

text \<open>\<^verbatim>\<open>String.prototype.startsWith\<close>, \<^verbatim>\<open>indexOf\<close> (\<open>-1\<close> when absent) and \<^verbatim>\<open>substring\<close>.\<close>

fun startsWith :: "string \<Rightarrow> string \<Rightarrow> bool" where
  "startsWith s [] = True"
| "startsWith [] (p # ps) = False"
| "startsWith (c # cs) (p # ps) = (c = p \<and> startsWith cs ps)"

fun indexOf :: "string \<Rightarrow> char \<Rightarrow> int" where
  "indexOf [] c = -1"
| "indexOf (x # xs) c =
     (if x = c then 0 else (let i = indexOf xs c in if i < 0 then -1 else i + 1))"

definition substring :: "string \<Rightarrow> int \<Rightarrow> string" where
  "substring s n = drop (nat n) s"

definition setTagsDetails :: "ref \<Rightarrow> ref list \<Rightarrow> world \<Rightarrow> world" where
  "setTagsDetails r ds w = w\<lparr>filters := (filters w)[r := (filters w ! r)\<lparr>tagsDetails := ds\<rparr>]\<rparr>"

definition setKeyword :: "ref \<Rightarrow> string \<Rightarrow> world \<Rightarrow> world" where
  "setKeyword t k w = w\<lparr>tagCatalog := (tagCatalog w)[t := (tagCatalog w ! t)\<lparr>keyword := k\<rparr>]\<rparr>"

text \<open>
  The body of the inner \<^verbatim>\<open>f.tags.forEach\<close> of \<^verbatim>\<open>getFilters\<close>, for filter object \<open>r\<close>
  and one of its tag ids. The tag object found is changed in place and the same object
  is pushed to \<^verbatim>\<open>f.tagsDetails\<close>.
\<close>

definition annotateTag :: "ref \<Rightarrow> world \<Rightarrow> int \<Rightarrow> world" where
  "annotateTag r w tid =
     (case findIndex (\<lambda>t. tagId t = tid) (tagCatalog w) of
        None \<Rightarrow> w
      | Some t \<Rightarrow>
          (let k = keyword (tagCatalog w ! t)
           in if startsWith k ''reference:'' then w
              else (let w1 = (if \<not> startsWith k ''lang:''
                              then setKeyword t (substring k (indexOf k CHR '':'' + 1)) w
                              else w)
                    in setTagsDetails r (tagsDetails (filters w1 ! r) @ [t]) w1)))"

definition annotateFilter :: "world \<Rightarrow> ref \<Rightarrow> world" where
  "annotateFilter w r = foldl (annotateTag r) (setTagsDetails r [] w) (tags (filters w ! r))"

text \<open>
  \<^verbatim>\<open>getFilters\<close> of the category selector: the references to the catalog's filters that
  are not removed, and the world after the annotation pass.
\<close>

definition getFilters :: "world \<Rightarrow> ref list \<times> world" where
  "getFilters w =
     (let result = filter (\<lambda>r. \<not> truthy (removed (filters w ! r))) [0..<length (filters w)]
      in (result, foldl annotateFilter w result))"

definition selectFiltersByGroupId :: "int \<Rightarrow> ref list \<Rightarrow> world \<Rightarrow> ref list" where
  "selectFiltersByGroupId gid fs w = filter (\<lambda>r. groupId (filters w ! r) = gid) fs"

definition setCategoryFilters :: "ref list \<Rightarrow> world \<Rightarrow> ref \<Rightarrow> world" where
  "setCategoryFilters fs w c =
     w\<lparr>groups := (groups w)[c := (groups w ! c)
         \<lparr>filtersG := selectFiltersByGroupId (groupIdG (groups w ! c)) fs w\<rparr>]\<rparr>"

text \<open>
  \<^verbatim>\<open>getFiltersMetadata\<close>: the listing is computed, every group object receives its
  member filters, and the listing is computed a second time for the \<^verbatim>\<open>filters\<close>
  property of the result. The result is the pair of the listing and the categories.
\<close>

definition getFiltersMetadata :: "world \<Rightarrow> (ref list \<times> ref list) \<times> world" where
  "getFiltersMetadata w =
     (let (fs, w1) = getFilters w;
          categories = [0..<length (groups w1)];
          w2 = foldl (setCategoryFilters fs) w1 categories;
          (fs', w3) = getFilters w2
      in ((fs', categories), w3))"

text \<open>The regular expression \<^verbatim>\<open>/iPhone|iPad|iPod/i\<close> on a string of ASCII characters.\<close>

definition toLower :: "char \<Rightarrow> char" where
  "toLower c =
     (let n = (of_char c :: nat) in if 65 \<le> n \<and> n \<le> 90 then char_of (n + 32) else c)"

fun containsCI :: "string \<Rightarrow> string \<Rightarrow> bool" where
  "containsCI [] p = (p = [])"
| "containsCI (c # cs) p = (startsWith (map toLower (c # cs)) p \<or> containsCI cs p)"

definition isMobileDevice :: "string \<Rightarrow> bool" where
  "isMobileDevice ua =
     (containsCI ua ''iphone'' \<or> containsCI ua ''ipad'' \<or> containsCI ua ''ipod'')"

definition checkMobile :: "env \<Rightarrow> filterObj \<Rightarrow> bool" where
  "checkMobile e f =
     (if \<not> isMobileFilter e f then True
      else (case userAgent e of
              Some ua \<Rightarrow> if ua \<noteq> [] then isMobileFilter e f \<and> isMobileDevice ua else False
            | None \<Rightarrow> False))"

definition isOfferedFilter :: "env \<Rightarrow> filterObj \<Rightarrow> int list \<Rightarrow> int \<Rightarrow> bool" where
  "isOfferedFilter e f langSuitableFilters safariFilterId =
     (if safariFilterId = filterId f then True
      else if \<not> isRecommendedFilter e f then False
      else (case languages f of
              Some (l # ls) \<Rightarrow>
                if filterId f \<in> set langSuitableFilters then checkMobile e f else False
            | _ \<Rightarrow> checkMobile e f))"

text \<open>
  \<^verbatim>\<open>getRecommendedFilterIdsByGroupId\<close>: the loop over the categories returns at the
  first category with the group id.
\<close>

fun firstCategory :: "int \<Rightarrow> world \<Rightarrow> ref list \<Rightarrow> ref option" where
  "firstCategory gid w [] = None"
| "firstCategory gid w (c # cs) =
     (if groupIdG (groups w ! c) = gid then Some c else firstCategory gid w cs)"

definition getRecommendedFilterIdsByGroupId :: "env \<Rightarrow> int \<Rightarrow> world \<Rightarrow> int list \<times> world" where
  "getRecommendedFilterIdsByGroupId e gid w =
     (let (metadata, w') = getFiltersMetadata w;
          langSuitableFilters = getFilterIdsForLanguage e (getLocale e)
      in (case firstCategory gid w' (snd metadata) of
            None \<Rightarrow> ([], w')
          | Some c \<Rightarrow>
              (map (\<lambda>r. filterId (filters w' ! r))
                 (filter (\<lambda>r. isOfferedFilter e (filters w' ! r) langSuitableFilters
                                (SAFARI_FILTER_ID e))
                    (filtersG (groups w' ! c))), w')))"

section \<open>Filters manager\<close>

definition updFilter :: "ref \<Rightarrow> (filterObj \<Rightarrow> filterObj) \<Rightarrow> world \<Rightarrow> world" where
  "updFilter r g w = w\<lparr>filters := (filters w)[r := g (filters w ! r)]\<rparr>"

definition updGroup :: "ref \<Rightarrow> (groupObj \<Rightarrow> groupObj) \<Rightarrow> world \<Rightarrow> world" where
  "updGroup r g w = w\<lparr>groups := (groups w)[r := g (groups w ! r)]\<rparr>"

text \<open>\<^verbatim>\<open>getFilterById\<close> throws the string \<^verbatim>\<open>'Filter with id ... not found'\<close>.\<close>

definition getFilterById :: "world \<Rightarrow> int \<Rightarrow> exn + ref" where
  "getFilterById w fid =
     (case getFilter w fid of None \<Rightarrow> Inl (FilterNotFound fid) | Some r \<Rightarrow> Inr r)"

definition enableGroup :: "int \<Rightarrow> world \<Rightarrow> world" where
  "enableGroup gid w =
     (case getGroup w gid of
        None \<Rightarrow> w
      | Some g \<Rightarrow>
          if truthy (enabledG (groups w ! g)) then w
          else notifyListeners FILTER_GROUP_ENABLE_DISABLE g
                 (updGroup g (\<lambda>x. x\<lparr>enabledG := Some True\<rparr>) w))"

definition disableGroup :: "int \<Rightarrow> world \<Rightarrow> world" where
  "disableGroup gid w =
     (case getGroup w gid of
        None \<Rightarrow> w
      | Some g \<Rightarrow>
          if \<not> truthy (enabledG (groups w ! g)) then w
          else notifyListeners FILTER_GROUP_ENABLE_DISABLE g
                 (updGroup g (\<lambda>x. x\<lparr>enabledG := Some False\<rparr>) w))"

definition isGroupEnabled :: "world \<Rightarrow> int \<Rightarrow> bool" where
  "isGroupEnabled w gid =
     (case getGroup w gid of None \<Rightarrow> False | Some g \<Rightarrow> truthy (enabledG (groups w ! g)))"

text \<open>
  \<^verbatim>\<open>isFilterEnabled\<close> reads the state store, not the flag of the filter object:
  \<^verbatim>\<open>filter && stateInfo && stateInfo.enabled\<close>.
\<close>

definition isFilterEnabled :: "world \<Rightarrow> int \<Rightarrow> bool" where
  "isFilterEnabled w fid =
     (getFilter w fid \<noteq> None \<and>
      (case filtersState w fid of None \<Rightarrow> False | Some s \<Rightarrow> truthy (enabledS s)))"

text \<open>
  \<^verbatim>\<open>enableFilter\<close>. On an id that is not in the catalog the assignment
  \<^verbatim>\<open>filter.enabled = true\<close> is a TypeError.
\<close>

definition enableFilter :: "int \<Rightarrow> world \<Rightarrow> outcome" where
  "enableFilter fid w =
     (if isFilterEnabled w fid then Normal w
      else (case getFilter w fid of
              None \<Rightarrow> Throws TypeError w
            | Some r \<Rightarrow>
                (let w1 = updFilter r (\<lambda>f. f\<lparr>enabled := Some True\<rparr>) w;
                     gid = groupId (filters w1 ! r);
                     w2 = (if \<not> groupHasEnabledStatus w1 gid then enableGroup gid w1 else w1)
                 in Normal (notifyListeners FILTER_ENABLE_DISABLE r w2))))"

text \<open>
  The closure \<^verbatim>\<open>onFilterLoaded\<close> of \<^verbatim>\<open>addAntiBannerFilter\<close>, up to its last
  statement \<^verbatim>\<open>callback(success)\<close>, which the caller of this function runs.
\<close>

definition onFilterLoaded :: "ref \<Rightarrow> bool \<Rightarrow> world \<Rightarrow> world" where
  "onFilterLoaded r success w =
     (if success
      then notifyListeners FILTER_ADD_REMOVE r (updFilter r (\<lambda>f. f\<lparr>installed := Some True\<rparr>) w)
      else w)"

text \<open>
  Modelled from the spec: the external loader
  \<open>loadFilterRules(filter, forceFlag, cb(success: bool))\<close>, the only asynchronous
  boundary: the call returns with the load in flight, and the callback fires later, once.
\<close>

definition loadFilterRules :: "ref \<Rightarrow> pending \<Rightarrow> world \<Rightarrow> world" where
  "loadFilterRules r p w =
     w\<lparr>trace := trace w @ [LoadRequested (filterId (filters w ! r))],
       inflight := inflight w @ [p]\<rparr>"

text \<open>
  \<^verbatim>\<open>addAntiBannerFilter(filterId, callback)\<close>. The callback is the closure built in
  \<^verbatim>\<open>loadNextFilter\<close>; it is given by the ids left in \<^verbatim>\<open>filterIds\<close>. Every path
  either throws, or ends with the call of the callback (the result says with which
  flag), or hands the callback to the loader.
\<close>

datatype added = Callback bool world | Deferred world | Raised exn world

definition addAntiBannerFilter :: "int \<Rightarrow> int list \<Rightarrow> world \<Rightarrow> added" where
  "addAntiBannerFilter fid rest w =
     (case getFilterById w fid of
        Inl e \<Rightarrow> Raised e w
      | Inr r \<Rightarrow>
          if truthy (installed (filters w ! r)) then Callback True w
          else if truthy (loaded (filters w ! r)) then Callback True (onFilterLoaded r True w)
          else Deferred (loadFilterRules r (Pending r fid rest) w))"

text \<open>
  \<^verbatim>\<open>loadNextFilter\<close> and the callback it passes to \<^verbatim>\<open>addAntiBannerFilter\<close>:
  \<^verbatim>\<open>function (success) { if (success) { enableFilter(filterId); } loadNextFilter(); }\<close>.
\<close>

fun loadNextFilter :: "int list \<Rightarrow> world \<Rightarrow> outcome"
  and callback :: "int \<Rightarrow> int list \<Rightarrow> bool \<Rightarrow> world \<Rightarrow> outcome" where
  "loadNextFilter [] w = Normal w"
| "loadNextFilter (fid # rest) w =
     (case addAntiBannerFilter fid rest w of
        Raised e w' \<Rightarrow> Throws e w'
      | Deferred w' \<Rightarrow> Normal w'
      | Callback success w' \<Rightarrow> callback fid rest success w')"
| "callback fid rest success w =
     (case (if success then enableFilter fid w else Normal w) of
        Throws e w' \<Rightarrow> Throws e w'
      | Normal w' \<Rightarrow> loadNextFilter rest w')"

definition addAndEnableFilters :: "int list \<Rightarrow> world \<Rightarrow> outcome" where
  "addAndEnableFilters filterIds w =
     (if filterIds = [] then Normal w else loadNextFilter (removeDuplicates filterIds) w)"

text \<open>
  The loader calls back for the \<open>i\<close>-th load in flight: \<^verbatim>\<open>onFilterLoaded(success)\<close>
  runs, and the load is no longer in flight.
\<close>

definition loadFilterRulesCallback :: "nat \<Rightarrow> bool \<Rightarrow> world \<Rightarrow> outcome" where
  "loadFilterRulesCallback i success w =
     (if i < length (inflight w)
      then (case inflight w ! i of
              Pending r fid rest \<Rightarrow>
                callback fid rest success
                  (onFilterLoaded r success
                     (w\<lparr>trace := trace w @ [LoadFinished fid success],
                        inflight := take i (inflight w) @ drop (Suc i) (inflight w)\<rparr>)))
      else Normal w)"

text \<open>
  \<^verbatim>\<open>disableFilters\<close>: the \<^verbatim>\<open>for\<close> loop over the deduplicated ids, with its
  \<^verbatim>\<open>return\<close> at the first id that is not enabled. (\<^verbatim>\<open>isFilterEnabled\<close> has checked
  that the filter is in the catalog.)
\<close>

fun disableLoop :: "int list \<Rightarrow> world \<Rightarrow> world" where
  "disableLoop [] w = w"
| "disableLoop (fid # rest) w =
     (if \<not> isFilterEnabled w fid then w
      else (case getFilter w fid of
              None \<Rightarrow> w
            | Some r \<Rightarrow>
                disableLoop rest
                  (notifyListeners FILTER_ENABLE_DISABLE r
                     (updFilter r (\<lambda>f. f\<lparr>enabled := Some False\<rparr>) w))))"

definition disableFilters :: "int list \<Rightarrow> world \<Rightarrow> world" where
  "disableFilters filterIds w = disableLoop (removeDuplicates filterIds) w"

text \<open>\<^verbatim>\<open>!filter.customUrl\<close> holds for an absent and for an empty url.\<close>

definition hasCustomUrl :: "filterObj \<Rightarrow> bool" where
  "hasCustomUrl f = (case customUrl f of None \<Rightarrow> False | Some u \<Rightarrow> u \<noteq> [])"

definition removeFilter :: "int \<Rightarrow> world \<Rightarrow> world" where
  "removeFilter fid w =
     (case getFilter w fid of
        None \<Rightarrow> w
      | Some r \<Rightarrow>
          if truthy (removed (filters w ! r)) then w
          else if \<not> hasCustomUrl (filters w ! r) then w
          else notifyListeners FILTER_ADD_REMOVE r
                 (notifyListeners FILTER_ENABLE_DISABLE r
                    (updFilter r
                       (\<lambda>f. f\<lparr>enabled := Some False, installed := Some False, removed := Some True\<rparr>)
                       w)))"

definition enableFiltersGroup :: "env \<Rightarrow> int \<Rightarrow> world \<Rightarrow> outcome" where
  "enableFiltersGroup e gid w =
     (let seeded =
            (case getGroup w gid of
               None \<Rightarrow> Normal w
             | Some g \<Rightarrow>
                 if enabledG (groups w ! g) = None
                 then (let (recommendedFiltersIds, w1) = getRecommendedFilterIdsByGroupId e gid w
                       in addAndEnableFilters recommendedFiltersIds w1)
                 else Normal w)
      in (case seeded of
            Throws x w' \<Rightarrow> Throws x w'
          | Normal w' \<Rightarrow> Normal (enableGroup gid w')))"

text \<open>
  \<^verbatim>\<open>loadCustomFilter\<close>. The url is \<open>None\<close> for \<^verbatim>\<open>undefined\<close>; \<^verbatim>\<open>!url\<close> holds for it
  and for the empty string. The registration \<^verbatim>\<open>subscriptions.updateCustomFilter\<close> is
  an external collaborator: the call is recorded, and its callback is the function
  \<open>updateCustomFilterCallback\<close>, which receives a filter id or \<^verbatim>\<open>undefined\<close>; an id
  that is \<open>0\<close> is falsy as well. An absent \<^verbatim>\<open>errorCallback\<close> is replaced by a function
  that does nothing, and its call is recorded like any other.
\<close>

definition urlFalsy :: "string option \<Rightarrow> bool" where
  "urlFalsy url = (url = None \<or> url = Some [])"

definition loadCustomFilter :: "string option \<Rightarrow> world \<Rightarrow> world" where
  "loadCustomFilter url w =
     (if urlFalsy url then w\<lparr>trace := trace w @ [ErrorCallback]\<rparr>
      else (case url of
              None \<Rightarrow> w
            | Some u \<Rightarrow> w\<lparr>trace := trace w @ [RegistrationRequested u]\<rparr>))"

definition updateCustomFilterCallback :: "int option \<Rightarrow> world \<Rightarrow> outcome" where
  "updateCustomFilterCallback fid w =
     (case fid of
        None \<Rightarrow> Normal (w\<lparr>trace := trace w @ [ErrorCallback]\<rparr>)
      | Some i \<Rightarrow>
          if i = 0 then Normal (w\<lparr>trace := trace w @ [ErrorCallback]\<rparr>)
          else (case getFilter w i of
                  None \<Rightarrow> Throws TypeError w
                | Some r \<Rightarrow>
                    (let w1 = updFilter r (\<lambda>f. f\<lparr>removed := None\<rparr>) w
                     in Normal (w1\<lparr>trace := trace w1 @ [SuccessCallback r]\<rparr>))))"

section \<open>Running a batch\<close>

text \<open>
  The loader answers the loads in flight in any order and with any result: \<open>ds\<close> lists
  which load is answered and how. An exception thrown inside a callback reaches the
  loader, not the manager; the world stays as it was when the exception was thrown.
\<close>

definition afterCallbacks :: "(nat \<times> bool) list \<Rightarrow> world \<Rightarrow> world" where
  "afterCallbacks ds w = foldl (\<lambda>w' (i, b). worldOf (loadFilterRulesCallback i b w')) w ds"

text \<open>
  A loader whose result for each filter id is given by \<open>ok\<close>: \<open>settle k ok n\<close> lets it
  answer the load at position \<open>k\<close> of the loads in flight, at most \<open>n\<close> times, and stops
  at an exception. A batch that is started when \<open>k\<close> loads are in flight has its own load
  at position \<open>k\<close>; the loads before it were started by earlier calls and stay in flight.
\<close>

fun settle :: "nat \<Rightarrow> (int \<Rightarrow> bool) \<Rightarrow> nat \<Rightarrow> outcome \<Rightarrow> outcome" where
  "settle k ok n (Throws e w) = Throws e w"
| "settle k ok 0 (Normal w) = Normal w"
| "settle k ok (Suc n) (Normal w) =
     (if k < length (inflight w)
      then (case inflight w ! k of
              Pending r fid rest \<Rightarrow> settle k ok n (loadFilterRulesCallback k (ok fid) w))
      else Normal w)"

text \<open>
  The load that a batch over \<open>ids\<close> may start: none, or one load, for an id of \<open>ids\<close>
  together with the ids that follow it there.
\<close>

definition isSuffix :: "'a list \<Rightarrow> 'a list \<Rightarrow> bool" where
  "isSuffix s xs = (length s \<le> length xs \<and> drop (length xs - length s) xs = s)"

fun nextLoadOf :: "int list \<Rightarrow> pending list \<Rightarrow> bool" where
  "nextLoadOf ids [] = True"
| "nextLoadOf ids [Pending r fid rest] = isSuffix (fid # rest) ids"
| "nextLoadOf ids (p # q # ps) = False"

text \<open>
  The sequential reading of the batch, after the words of the specification: one filter
  at a time, \<^verbatim>\<open>addAntiBannerFilter\<close> followed by \<^verbatim>\<open>enableFilter\<close> on success, the next
  id only after the cycle of the current one is complete. \<open>loadAndEnable\<close> is the
  complete cycle of one id that is in the catalog, \<open>sequentially\<close> the batch; a lookup
  that fails ends it.
\<close>

definition needsLoad :: "world \<Rightarrow> ref \<Rightarrow> bool" where
  "needsLoad w r = (\<not> truthy (installed (filters w ! r)) \<and> \<not> truthy (loaded (filters w ! r)))"

definition loadAndEnable :: "(int \<Rightarrow> bool) \<Rightarrow> int \<Rightarrow> ref \<Rightarrow> world \<Rightarrow> world" where
  "loadAndEnable ok fid r w =
     (if truthy (installed (filters w ! r)) then worldOf (enableFilter fid w)
      else if truthy (loaded (filters w ! r))
      then worldOf (enableFilter fid (onFilterLoaded r True w))
      else (let w1 = w\<lparr>trace := trace w @ [LoadRequested fid, LoadFinished fid (ok fid)]\<rparr>;
                w2 = onFilterLoaded r (ok fid) w1
            in if ok fid then worldOf (enableFilter fid w2) else w2))"

fun sequentially :: "(int \<Rightarrow> bool) \<Rightarrow> int list \<Rightarrow> world \<Rightarrow> outcome" where
  "sequentially ok [] w = Normal w"
| "sequentially ok (fid # rest) w =
     (case getFilter w fid of
        None \<Rightarrow> Throws (FilterNotFound fid) w
      | Some r \<Rightarrow> sequentially ok rest (loadAndEnable ok fid r w))"

text \<open>
  A filter of the catalog that is neither installed nor loaded is handed to the external
  loader; \<open>loaderCalls\<close> lists what the loader sees for a list of ids when it answers
  each load before the next one starts.
\<close>

definition requiresLoader :: "world \<Rightarrow> int \<Rightarrow> bool" where
  "requiresLoader w fid = (case getFilter w fid of None \<Rightarrow> False | Some r \<Rightarrow> needsLoad w r)"

definition loaderCalls :: "(int \<Rightarrow> bool) \<Rightarrow> world \<Rightarrow> int list \<Rightarrow> action list" where
  "loaderCalls ok w ids =
     concat (map (\<lambda>fid. [LoadRequested fid, LoadFinished fid (ok fid)])
               (filter (requiresLoader w) ids))"

text \<open>Projections of the trace: the notifications of one event kind, the loader's actions.\<close>

fun isNotify :: "event \<Rightarrow> action \<Rightarrow> bool" where
  "isNotify ev (Notify ev' i) = (ev' = ev)"
| "isNotify ev a = False"

fun isLoad :: "action \<Rightarrow> bool" where
  "isLoad (LoadRequested i) = True"
| "isLoad (LoadFinished i b) = True"
| "isLoad a = False"

text \<open>
  The displayed keywords of a filter of the listing: the keywords of the tag objects
  that its \<^verbatim>\<open>tagsDetails\<close> refers to.
\<close>

definition displayedKeywords :: "world \<Rightarrow> ref \<Rightarrow> string list" where
  "displayedKeywords w r = map (\<lambda>t. keyword (tagCatalog w ! t)) (tagsDetails (filters w ! r))"

text \<open>A filter object without its annotation, which is all that the listing changes.\<close>

definition core :: "filterObj \<Rightarrow> filterObj" where
  "core f = f\<lparr>tagsDetails := []\<rparr>"

section \<open>Example catalogs\<close>

definition mkFilter :: "int \<Rightarrow> int \<Rightarrow> int list \<Rightarrow> filterObj" where
  "mkFilter fid gid ts =
     \<lparr>filterId = fid, groupId = gid, tags = ts, languages = None, customUrl = None,
      enabled = None, installed = None, loaded = None, removed = None, tagsDetails = []\<rparr>"

definition mkWorld :: "filterObj list \<Rightarrow> tagObj list \<Rightarrow> world" where
  "mkWorld fs ts =
     \<lparr>filters = fs, groups = [\<lparr>groupIdG = 7, enabledG = None, filtersG = []\<rparr>],
      tagCatalog = ts, filtersState = Map.empty, groupState = Map.empty,
      trace = [], inflight = []\<rparr>"

definition exampleEnv :: env where
  "exampleEnv =
     \<lparr>SAFARI_FILTER_ID = 12, RECOMMENDED_TAG_ID = 10, MOBILE_TAG_ID = 19, getLocale = ''en'',
      getFilterIdsForLanguage = (\<lambda>l. []), userAgent = None\<rparr>"

definition customFilter :: filterObj where
  "customFilter = (mkFilter 1000 7 [])\<lparr>customUrl := Some ''https://example.org/list.txt''\<rparr>"

definition stateOn :: stateInfo where
  "stateOn = \<lparr>enabledS = Some True, installedS = Some True, loadedS = Some True\<rparr>"

text \<open>Filters \<open>1\<close>, \<open>2\<close> and \<open>3\<close>, of which the store holds \<open>1\<close> and \<open>3\<close> as enabled.\<close>

definition threeFilters :: world where
  "threeFilters =
     (mkWorld [mkFilter 1 7 [], mkFilter 2 7 [], mkFilter 3 7 []] [])
       \<lparr>filtersState := [1 \<mapsto> stateOn, 3 \<mapsto> stateOn]\<rparr>"

definition twoFilters :: world where
  "twoFilters = mkWorld [mkFilter 1 7 [], mkFilter 2 7 []] []"

text \<open>
  The same catalog while the load of filter \<open>2\<close>, started by an earlier
  \<^verbatim>\<open>addAndEnableFilters([2])\<close>, is in flight.
\<close>

definition busyWorld :: world where
  "busyWorld = worldOf (addAndEnableFilters [2] twoFilters)"

text \<open>Filters \<open>1\<close> and \<open>3\<close>; there is no filter \<open>2\<close>.\<close>

definition gapWorld :: world where
  "gapWorld = mkWorld [mkFilter 1 7 [], mkFilter 3 7 []] []"

definition gapWorldInstalled :: world where
  "gapWorldInstalled = mkWorld [(mkFilter 1 7 [])\<lparr>installed := Some True\<rparr>, mkFilter 3 7 []] []"

section \<open>Relations between worlds\<close>

text \<open>
  \<open>sameState w w'\<close>: \<open>w'\<close> differs from \<open>w\<close> in display annotations only (the
  \<^verbatim>\<open>tagsDetails\<close> of filters, the keywords of tags, the \<^verbatim>\<open>filters\<close> of groups).
\<close>

definition sameState :: "world \<Rightarrow> world \<Rightarrow> bool" where
  "sameState w w' =
     (trace w' = trace w \<and> inflight w' = inflight w \<and> filtersState w' = filtersState w \<and>
      groupState w' = groupState w \<and> map core (filters w') = map core (filters w) \<and>
      map groupIdG (groups w') = map groupIdG (groups w) \<and>
      map enabledG (groups w') = map enabledG (groups w))"

text \<open>The \<^verbatim>\<open>FILTER_GROUP_ENABLE_DISABLE\<close> notifications for one group, in a trace.\<close>

definition groupEvents :: "int \<Rightarrow> action list \<Rightarrow> action list" where
  "groupEvents gid tr = filter (\<lambda>a. a = Notify FILTER_GROUP_ENABLE_DISABLE gid) tr"

text \<open>
  \<open>groupToggled gid g w w'\<close>: between \<open>w\<close> and \<open>w'\<close> the group object \<open>g\<close> (with
  id \<open>gid\<close>) was either left alone, with no event for it, or taken from the
  never-toggled state to enabled, with exactly one event.
\<close>

definition groupToggled :: "int \<Rightarrow> ref \<Rightarrow> world \<Rightarrow> world \<Rightarrow> bool" where
  "groupToggled gid g w w' =
     (map groupIdG (groups w') = map groupIdG (groups w) \<and>
      (enabledG (groups w' ! g) = enabledG (groups w ! g) \<and>
         groupEvents gid (trace w') = groupEvents gid (trace w) \<or>
       enabledG (groups w ! g) = None \<and> enabledG (groups w' ! g) = Some True \<and>
         groupEvents gid (trace w') =
           groupEvents gid (trace w) @ [Notify FILTER_GROUP_ENABLE_DISABLE gid]))"

text \<open>
  Two worlds agree on what the load pipeline reads and writes about filters: the filter
  objects, the filter state store and the loads in flight. (They may differ in groups and
  in the trace.)
\<close>

definition filtersAgree :: "world \<Rightarrow> world \<Rightarrow> bool" where
  "filtersAgree w w' =
     (filters w = filters w' \<and> filtersState w = filtersState w' \<and> inflight w = inflight w')"

definition outcomesAgree :: "outcome \<Rightarrow> outcome \<Rightarrow> bool" where
  "outcomesAgree a b = (thrown a = thrown b \<and> filtersAgree (worldOf a) (worldOf b))"

text \<open>Group \<open>7\<close>, never toggled, with the recommended filter \<open>3\<close>.\<close>

definition seedWorld :: world where
  "seedWorld = mkWorld [mkFilter 3 7 [10]] []"

section \<open>Lookups and frames\<close>

lemma findIndex_Some: "findIndex P xs = Some i \<Longrightarrow> i < length xs \<and> P (xs ! i)"
  by (induction xs arbitrary: i) (auto split: if_splits)

lemma findIndex_None: "(findIndex P xs = None) = (\<forall>x\<in>set xs. \<not> P x)"
  by (induction xs) auto

lemma findIndex_map: "findIndex P (map f xs) = findIndex (\<lambda>x. P (f x)) xs"
  by (induction xs) auto

lemma findIndex_filterId:
  "findIndex (\<lambda>f. filterId f = fid) xs = findIndex (\<lambda>i. i = fid) (map filterId xs)"
  by (simp add: findIndex_map)

lemma findIndex_groupIdG:
  "findIndex (\<lambda>g. groupIdG g = gid) xs = findIndex (\<lambda>i. i = gid) (map groupIdG xs)"
  by (simp add: findIndex_map)

lemma getFilter_Some:
  "getFilter w fid = Some r \<Longrightarrow> r < length (filters w) \<and> filterId (filters w ! r) = fid"
  unfolding getFilter_def by (drule findIndex_Some) simp

lemma getGroup_Some:
  "getGroup w gid = Some g \<Longrightarrow> g < length (groups w) \<and> groupIdG (groups w ! g) = gid"
  unfolding getGroup_def by (drule findIndex_Some) simp

lemma getFilter_cong:
  "map filterId (filters w') = map filterId (filters w) \<Longrightarrow> getFilter w' fid = getFilter w fid"
  unfolding getFilter_def findIndex_filterId by simp

lemma getGroup_cong:
  "map groupIdG (groups w') = map groupIdG (groups w) \<Longrightarrow> getGroup w' gid = getGroup w gid"
  unfolding getGroup_def findIndex_groupIdG by simp

lemma map_update_same:
  assumes "f y = f (xs ! r)"
  shows "map f (xs[r := y]) = map f xs"
proof (cases "r < length xs")
  case True
  have "map f (xs[r := y]) = (map f xs)[r := map f xs ! r]"
    using assms True by (simp add: map_update)
  then show ?thesis by simp
next
  case False
  then show ?thesis by (simp add: list_update_beyond)
qed

lemma core_fields [simp]:
  "filterId (core f) = filterId f" "groupId (core f) = groupId f" "tags (core f) = tags f"
  "languages (core f) = languages f" "customUrl (core f) = customUrl f"
  "enabled (core f) = enabled f" "installed (core f) = installed f"
  "loaded (core f) = loaded f" "removed (core f) = removed f"
  by (simp_all add: core_def)

lemma core_tagsDetails [simp]: "core (f\<lparr>tagsDetails := ds\<rparr>) = core f"
  by (simp add: core_def)

lemma nth_map_core:
  "map core xs = map core ys \<Longrightarrow> r < length ys \<Longrightarrow> core (xs ! r) = core (ys ! r)"
  by (metis length_map nth_map)

lemma isRecommendedFilter_core:
  "core f = core g \<Longrightarrow> isRecommendedFilter e f = isRecommendedFilter e g"
  by (metis core_fields(3) isRecommendedFilter_def)

lemma filterId_core: "core f = core g \<Longrightarrow> filterId f = filterId g"
  by (metis core_fields(1))

lemma notifyListeners_frame [simp]:
  "filters (notifyListeners ev r w) = filters w"
  "groups (notifyListeners ev r w) = groups w"
  "tagCatalog (notifyListeners ev r w) = tagCatalog w"
  "inflight (notifyListeners ev r w) = inflight w"
  "trace (notifyListeners ev r w) = trace w @ [Notify ev (payloadId ev r w)]"
  by (cases ev; simp add: notifyListeners_def persistFilter_def persistGroup_def Let_def)+

lemma notifyListeners_filtersState:
  "filtersState (notifyListeners ev r w) =
     (if ev = FILTER_GROUP_ENABLE_DISABLE then filtersState w
      else (filtersState w)(filterId (filters w ! r) \<mapsto>
         \<lparr>enabledS = enabled (filters w ! r), installedS = installed (filters w ! r),
          loadedS = loaded (filters w ! r)\<rparr>))"
  by (cases ev; simp add: notifyListeners_def persistFilter_def persistGroup_def Let_def)

lemma updFilter_frame [simp]:
  "groups (updFilter r g w) = groups w"
  "tagCatalog (updFilter r g w) = tagCatalog w"
  "inflight (updFilter r g w) = inflight w"
  "trace (updFilter r g w) = trace w"
  "filtersState (updFilter r g w) = filtersState w"
  "groupState (updFilter r g w) = groupState w"
  "filters (updFilter r g w) = (filters w)[r := g (filters w ! r)]"
  by (simp_all add: updFilter_def)

lemma updGroup_frame [simp]:
  "filters (updGroup r g w) = filters w"
  "tagCatalog (updGroup r g w) = tagCatalog w"
  "inflight (updGroup r g w) = inflight w"
  "trace (updGroup r g w) = trace w"
  "filtersState (updGroup r g w) = filtersState w"
  "groupState (updGroup r g w) = groupState w"
  "groups (updGroup r g w) = (groups w)[r := g (groups w ! r)]"
  by (simp_all add: updGroup_def)

lemma getFilter_updFilter:
  "filterId (g (filters w ! r)) = filterId (filters w ! r) \<Longrightarrow>
   getFilter (updFilter r g w) fid = getFilter w fid"
  by (rule getFilter_cong) (simp add: map_update_same)

subsection \<open>The listing changes annotations only\<close>

lemma setTagsDetails_frame [simp]:
  "groups (setTagsDetails r ds w) = groups w"
  "tagCatalog (setTagsDetails r ds w) = tagCatalog w"
  "map core (filters (setTagsDetails r ds w)) = map core (filters w)"
  by (simp_all add: setTagsDetails_def map_update_same)

lemma setKeyword_frame [simp]:
  "groups (setKeyword t k w) = groups w"
  "filters (setKeyword t k w) = filters w"
  by (simp_all add: setKeyword_def)

lemma annotateTag_frame [simp]:
  "groups (annotateTag r w tid) = groups w"
  "map core (filters (annotateTag r w tid)) = map core (filters w)"
  by (simp_all add: annotateTag_def Let_def split: option.splits)

lemma foldl_annotateTag_frame [simp]:
  "groups (foldl (annotateTag r) w ts) = groups w"
  "map core (filters (foldl (annotateTag r) w ts)) = map core (filters w)"
  by (induction ts arbitrary: w) simp_all

lemma annotateFilter_frame [simp]:
  "groups (annotateFilter w r) = groups w"
  "map core (filters (annotateFilter w r)) = map core (filters w)"
  by (simp_all add: annotateFilter_def)

lemma foldl_annotateFilter_frame [simp]:
  "groups (foldl annotateFilter w rs) = groups w"
  "map core (filters (foldl annotateFilter w rs)) = map core (filters w)"
  by (induction rs arbitrary: w) simp_all

lemma getFilters_frame [simp]:
  "groups (snd (getFilters w)) = groups w"
  "map core (filters (snd (getFilters w))) = map core (filters w)"
  by (simp_all add: getFilters_def Let_def)

lemma getFilters_refs: "r \<in> set (fst (getFilters w)) \<Longrightarrow> r < length (filters w)"
  by (simp add: getFilters_def Let_def)

lemma setCategoryFilters_frame [simp]:
  "filters (setCategoryFilters fs w c) = filters w"
  "length (groups (setCategoryFilters fs w c)) = length (groups w)"
  "map groupIdG (groups (setCategoryFilters fs w c)) = map groupIdG (groups w)"
  by (simp_all add: setCategoryFilters_def map_update_same)

lemma foldl_setCategoryFilters_frame [simp]:
  "filters (foldl (setCategoryFilters fs) w cs) = filters w"
  "length (groups (foldl (setCategoryFilters fs) w cs)) = length (groups w)"
  "map groupIdG (groups (foldl (setCategoryFilters fs) w cs)) = map groupIdG (groups w)"
  by (induction cs arbitrary: w) simp_all

lemma setCategoryFilters_refs:
  "c < length (groups w) \<Longrightarrow>
   set (filtersG (groups (setCategoryFilters fs w c) ! c)) \<subseteq> set fs"
  by (auto simp: setCategoryFilters_def selectFiltersByGroupId_def)

lemma setCategoryFilters_other:
  "c' \<noteq> c \<Longrightarrow> groups (setCategoryFilters fs w c) ! c' = groups w ! c'"
  by (simp add: setCategoryFilters_def)

lemma foldl_setCategoryFilters_refs:
  "c \<in> set cs \<Longrightarrow> c < length (groups w) \<Longrightarrow>
   set (filtersG (groups (foldl (setCategoryFilters fs) w cs) ! c)) \<subseteq> set fs"
proof (induction cs arbitrary: w rule: rev_induct)
  case Nil
  then show ?case by simp
next
  case (snoc a cs)
  show ?case
  proof (cases "a = c")
    case True
    then show ?thesis using snoc.prems by (simp add: setCategoryFilters_refs)
  next
    case False
    then show ?thesis using snoc by (simp add: setCategoryFilters_other)
  qed
qed

lemma firstCategory_Some:
  "firstCategory gid w cs = Some c \<Longrightarrow> c \<in> set cs \<and> groupIdG (groups w ! c) = gid"
  by (induction cs) (auto split: if_splits)

lemma getFiltersMetadata_frame:
  assumes "getFiltersMetadata w = ((fs, cs), w')"
  shows "map core (filters w') = map core (filters w)"
    and "map groupIdG (groups w') = map groupIdG (groups w)"
    and "cs = [0..<length (groups w)]"
    and "\<forall>c<length (groups w). \<forall>r\<in>set (filtersG (groups w' ! c)). r < length (filters w)"
proof -
  obtain fs1 w1 where g1: "getFilters w = (fs1, w1)" by (cases "getFilters w")
  define w2 where "w2 = foldl (setCategoryFilters fs1) w1 [0..<length (groups w1)]"
  obtain fs3 w3 where g3: "getFilters w2 = (fs3, w3)" by (cases "getFilters w2")
  have eq: "w' = w3" "cs = [0..<length (groups w1)]"
    using assms g1 g3 by (simp_all add: getFiltersMetadata_def Let_def w2_def)
  have w1: "groups w1 = groups w" "map core (filters w1) = map core (filters w)"
    using getFilters_frame [of w] g1 by simp_all
  have w3: "groups w3 = groups w2" "map core (filters w3) = map core (filters w2)"
    using getFilters_frame [of w2] g3 by simp_all
  have f2: "filters w2 = filters w1" by (simp add: w2_def)
  show "map core (filters w') = map core (filters w)" using eq w1 w3 f2 by simp
  show "map groupIdG (groups w') = map groupIdG (groups w)" using eq w1 w3 by (simp add: w2_def)
  show "cs = [0..<length (groups w)]" using eq w1 by simp
  show "\<forall>c<length (groups w). \<forall>r\<in>set (filtersG (groups w' ! c)). r < length (filters w)"
  proof (intro allI impI ballI)
    fix c r assume c: "c < length (groups w)" and r: "r \<in> set (filtersG (groups w' ! c))"
    have "set (filtersG (groups w2 ! c)) \<subseteq> set fs1"
      unfolding w2_def using c w1 by (intro foldl_setCategoryFilters_refs) simp_all
    then have "r \<in> set fs1" using r eq w3 by auto
    then show "r < length (filters w)" using getFilters_refs [of r w] g1 by simp
  qed
qed

subsection \<open>Deduplication\<close>

lemma removeDuplicates_set [simp]: "set (removeDuplicates xs) = set xs"
  by (induction xs rule: removeDuplicates.induct) auto

lemma removeDuplicates_distinct [simp]: "distinct (removeDuplicates xs)"
  by (induction xs rule: removeDuplicates.induct) auto

subsection \<open>Single steps of the manager\<close>

lemma isFilterEnabled_present: "isFilterEnabled w fid \<Longrightarrow> \<exists>r. getFilter w fid = Some r"
  by (auto simp: isFilterEnabled_def)

lemma disable_step:
  assumes "getFilter w x = Some rx"
  defines "w1 \<equiv> notifyListeners FILTER_ENABLE_DISABLE rx
                  (updFilter rx (\<lambda>f. f\<lparr>enabled := Some False\<rparr>) w)"
  shows "getFilter w1 fid = getFilter w fid"
    and "trace w1 = trace w @ [Notify FILTER_ENABLE_DISABLE x]"
    and "enabled (filters w1 ! rx) = Some False"
    and "r \<noteq> rx \<Longrightarrow> filters w1 ! r = filters w ! r"
    and "fid \<noteq> x \<Longrightarrow> filtersState w1 fid = filtersState w fid"
    and "fid \<noteq> x \<Longrightarrow> isFilterEnabled w1 fid = isFilterEnabled w fid"
proof -
  have rx: "rx < length (filters w)" "filterId (filters w ! rx) = x"
    using getFilter_Some [OF assms(1)] by simp_all
  show g: "getFilter w1 fid = getFilter w fid"
    unfolding w1_def by (intro getFilter_cong) (simp add: map_update_same)
  show "trace w1 = trace w @ [Notify FILTER_ENABLE_DISABLE x]"
    unfolding w1_def using rx by simp
  show "enabled (filters w1 ! rx) = Some False"
    unfolding w1_def using rx by simp
  show "r \<noteq> rx \<Longrightarrow> filters w1 ! r = filters w ! r"
    unfolding w1_def by simp
  show s: "fid \<noteq> x \<Longrightarrow> filtersState w1 fid = filtersState w fid"
    unfolding w1_def using rx by (simp add: notifyListeners_filtersState)
  show "fid \<noteq> x \<Longrightarrow> isFilterEnabled w1 fid = isFilterEnabled w fid"
    using g s by (simp add: isFilterEnabled_def)
qed

lemma disableLoop_spec:
  "distinct ids \<Longrightarrow>
   trace (disableLoop ids w) =
     trace w @ map (Notify FILTER_ENABLE_DISABLE) (takeWhile (isFilterEnabled w) ids) \<and>
   (\<forall>fid r. fid \<in> set (takeWhile (isFilterEnabled w) ids) \<longrightarrow> getFilter w fid = Some r \<longrightarrow>
      enabled (filters (disableLoop ids w) ! r) = Some False) \<and>
   (\<forall>fid r. fid \<notin> set (takeWhile (isFilterEnabled w) ids) \<longrightarrow> getFilter w fid = Some r \<longrightarrow>
      filters (disableLoop ids w) ! r = filters w ! r \<and>
      filtersState (disableLoop ids w) fid = filtersState w fid)"
proof (induction ids arbitrary: w)
  case Nil
  show ?case by simp
next
  case (Cons x rest)
  have d: "distinct rest" "x \<notin> set rest" using Cons.prems by simp_all
  show ?case
  proof (cases "isFilterEnabled w x")
    case False
    then show ?thesis by simp
  next
    case True
    then obtain rx where rx: "getFilter w x = Some rx"
      using isFilterEnabled_present by blast
    define w1 where "w1 = notifyListeners FILTER_ENABLE_DISABLE rx
                  (updFilter rx (\<lambda>f. f\<lparr>enabled := Some False\<rparr>) w)"
    note st = disable_step [OF rx, folded w1_def]
    have loop: "disableLoop (x # rest) w = disableLoop rest w1"
      using True rx by (simp add: w1_def)
    have "isFilterEnabled w1 y = isFilterEnabled w y" if "y \<in> set rest" for y
      using that d(2) st(6) by metis
    then have tw: "takeWhile (isFilterEnabled w1) rest = takeWhile (isFilterEnabled w) rest"
      by (intro takeWhile_cong refl) (blast dest: set_takeWhileD)
    have tk: "takeWhile (isFilterEnabled w) (x # rest) = x # takeWhile (isFilterEnabled w) rest"
      using True by simp
    note ih = Cons.IH [OF d(1), of w1, unfolded tw]
    have xn: "x \<notin> set (takeWhile (isFilterEnabled w) rest)"
      using d(2) set_takeWhileD by fastforce
    have t: "trace (disableLoop (x # rest) w) =
               trace w @ map (Notify FILTER_ENABLE_DISABLE) (takeWhile (isFilterEnabled w) (x # rest))"
      unfolding loop tk using ih st(2) by simp
    have a: "enabled (filters (disableLoop (x # rest) w) ! r) = Some False"
      if "fid \<in> set (takeWhile (isFilterEnabled w) (x # rest))" "getFilter w fid = Some r" for fid r
    proof (cases "fid = x")
      case True
      then have "r = rx" using that(2) rx by simp
      moreover have "filters (disableLoop rest w1) ! rx = filters w1 ! rx"
        using ih xn rx st(1) by metis
      ultimately show ?thesis unfolding loop using st(3) by simp
    next
      case False
      then have "fid \<in> set (takeWhile (isFilterEnabled w) rest)"
        using that(1) [unfolded tk] by simp
      then show ?thesis unfolding loop using ih that(2) st(1) by simp
    qed
    have b: "filters (disableLoop (x # rest) w) ! r = filters w ! r \<and>
             filtersState (disableLoop (x # rest) w) fid = filtersState w fid"
      if "fid \<notin> set (takeWhile (isFilterEnabled w) (x # rest))" "getFilter w fid = Some r" for fid r
    proof -
      have ne: "fid \<noteq> x" "fid \<notin> set (takeWhile (isFilterEnabled w) rest)"
        using that(1) [unfolded tk] by simp_all
      have "r \<noteq> rx" using getFilter_Some [OF rx] getFilter_Some [OF that(2)] ne(1) by auto
      moreover have "filters (disableLoop rest w1) ! r = filters w1 ! r \<and>
             filtersState (disableLoop rest w1) fid = filtersState w1 fid"
        using ih ne(2) that(2) st(1) by metis
      ultimately show ?thesis unfolding loop using st(4,5) ne(1) by simp
    qed
    show ?thesis using t a b by blast
  qed
qed

lemma removeFilter_rejected:
  "getFilter w fid = None \<or>
     (\<exists>r. getFilter w fid = Some r \<and>
          (truthy (removed (filters w ! r)) \<or> \<not> hasCustomUrl (filters w ! r)))
   \<Longrightarrow> removeFilter fid w = w"
  by (auto simp: removeFilter_def)

lemma removeFilter_done:
  assumes "getFilter w fid = Some r" "\<not> truthy (removed (filters w ! r))"
    "hasCustomUrl (filters w ! r)"
  shows "enabled (filters (removeFilter fid w) ! r) = Some False \<and>
        installed (filters (removeFilter fid w) ! r) = Some False \<and>
        removed (filters (removeFilter fid w) ! r) = Some True \<and>
        trace (removeFilter fid w) =
          trace w @ [Notify FILTER_ENABLE_DISABLE fid, Notify FILTER_ADD_REMOVE fid]"
proof -
  have r: "r < length (filters w)" "filterId (filters w ! r) = fid"
    using getFilter_Some [OF assms(1)] by simp_all
  show ?thesis using assms r by (simp add: removeFilter_def)
qed

lemma enableGroup_frame [simp]:
  "filters (enableGroup gid w) = filters w"
  "inflight (enableGroup gid w) = inflight w"
  "filtersState (enableGroup gid w) = filtersState w"
  "tagCatalog (enableGroup gid w) = tagCatalog w"
  "map groupIdG (groups (enableGroup gid w)) = map groupIdG (groups w)"
  by (simp_all add: enableGroup_def notifyListeners_filtersState map_update_same
        split: option.splits)

lemma enableGroup_trace:
  "trace (enableGroup gid w) = trace w \<or>
   trace (enableGroup gid w) = trace w @ [Notify FILTER_GROUP_ENABLE_DISABLE gid]"
  by (auto simp: enableGroup_def split: option.splits dest: getGroup_Some)

lemma enableGroup_other_events:
  "ev \<noteq> FILTER_GROUP_ENABLE_DISABLE \<Longrightarrow>
   filter (isNotify ev) (trace (enableGroup gid w)) = filter (isNotify ev) (trace w)"
  using enableGroup_trace [of gid w] by auto

lemma enableFilter_enabled: "isFilterEnabled w fid \<Longrightarrow> enableFilter fid w = Normal w"
  by (simp add: enableFilter_def)

lemma enableFilter_fresh:
  assumes "getFilter w fid = Some r" "\<not> isFilterEnabled w fid"
  shows "\<exists>w1. enableFilter fid w = Normal w1 \<and> enabled (filters w1 ! r) = Some True \<and>
           isFilterEnabled w1 fid \<and>
           filter (isNotify FILTER_ENABLE_DISABLE) (trace w1) =
             filter (isNotify FILTER_ENABLE_DISABLE) (trace w) @ [Notify FILTER_ENABLE_DISABLE fid]"
proof -
  have r: "r < length (filters w)" "filterId (filters w ! r) = fid"
    using getFilter_Some [OF assms(1)] by simp_all
  define w1 where "w1 = updFilter r (\<lambda>f. f\<lparr>enabled := Some True\<rparr>) w"
  define w2 where "w2 = (if \<not> groupHasEnabledStatus w1 (groupId (filters w1 ! r))
                         then enableGroup (groupId (filters w1 ! r)) w1 else w1)"
  define w3 where "w3 = notifyListeners FILTER_ENABLE_DISABLE r w2"
  have e: "enableFilter fid w = Normal w3"
    using assms by (simp add: enableFilter_def w1_def w2_def w3_def Let_def)
  have f2: "filters w2 = filters w1" by (simp add: w2_def)
  have f1: "filters w1 ! r = (filters w ! r)\<lparr>enabled := Some True\<rparr>"
    using r by (simp add: w1_def)
  have g: "getFilter w3 fid = Some r"
    unfolding w3_def using assms(1) r
    by (simp add: getFilter_def f2 w1_def findIndex_filterId map_update_same)
  have s: "filtersState w3 fid = Some \<lparr>enabledS = Some True, installedS = installed (filters w ! r),
             loadedS = loaded (filters w ! r)\<rparr>"
    unfolding w3_def using r by (simp add: notifyListeners_filtersState f2 f1)
  have t2: "filter (isNotify FILTER_ENABLE_DISABLE) (trace w2) =
            filter (isNotify FILTER_ENABLE_DISABLE) (trace w)"
    by (simp add: w2_def enableGroup_other_events) (simp add: w1_def)
  have t3: "trace w3 = trace w2 @ [Notify FILTER_ENABLE_DISABLE fid]"
    unfolding w3_def using r by (simp add: f2 f1)
  show ?thesis
    using e g s t2 t3 r by (simp add: isFilterEnabled_def w3_def f2 f1 truthy_def)
qed

subsection \<open>One load-and-enable cycle\<close>

lemma enableGroup_isLoad [simp]:
  "filter isLoad (trace (enableGroup gid w)) = filter isLoad (trace w)"
  using enableGroup_trace [of gid w] by auto

lemma enableFilter_frame:
  "inflight (worldOf (enableFilter fid w)) = inflight w"
  "map filterId (filters (worldOf (enableFilter fid w))) = map filterId (filters w)"
  "tagCatalog (worldOf (enableFilter fid w)) = tagCatalog w"
  "map groupIdG (groups (worldOf (enableFilter fid w))) = map groupIdG (groups w)"
  "filter isLoad (trace (worldOf (enableFilter fid w))) = filter isLoad (trace w)"
  by (simp_all add: enableFilter_def Let_def map_update_same split: option.splits)

lemma enableFilter_other:
  assumes "getFilter w fid = Some r"
  shows "r' \<noteq> r \<Longrightarrow> filters (worldOf (enableFilter fid w)) ! r' = filters w ! r'"
    and "fid' \<noteq> fid \<Longrightarrow> filtersState (worldOf (enableFilter fid w)) fid' = filtersState w fid'"
  using assms getFilter_Some [OF assms]
  by (simp_all add: enableFilter_def Let_def notifyListeners_filtersState)

lemma enableFilter_present:
  assumes "getFilter w fid = Some r"
  shows "thrown (enableFilter fid w) = None"
    and "isFilterEnabled (worldOf (enableFilter fid w)) fid"
proof -
  show "thrown (enableFilter fid w) = None"
    using assms by (simp add: enableFilter_def Let_def)
  show "isFilterEnabled (worldOf (enableFilter fid w)) fid"
  proof (cases "isFilterEnabled w fid")
    case True
    then show ?thesis by (simp add: enableFilter_enabled)
  next
    case False
    then show ?thesis using enableFilter_fresh [OF assms False] by auto
  qed
qed

lemma enableFilter_installed:
  "installed (filters (worldOf (enableFilter fid w)) ! r') = installed (filters w ! r')"
proof (cases "getFilter w fid")
  case None
  then show ?thesis by (simp add: enableFilter_def)
next
  case (Some r)
  then have "r < length (filters w)" using getFilter_Some by blast
  then show ?thesis using Some by (simp add: enableFilter_def Let_def nth_list_update)
qed

lemma enableFilter_Normal:
  "getFilter w fid = Some r \<Longrightarrow> enableFilter fid w = Normal (worldOf (enableFilter fid w))"
  using enableFilter_present(1) [of w fid r] by (cases "enableFilter fid w") simp_all

lemma onFilterLoaded_frame:
  "inflight (onFilterLoaded r b w) = inflight w"
  "map filterId (filters (onFilterLoaded r b w)) = map filterId (filters w)"
  "tagCatalog (onFilterLoaded r b w) = tagCatalog w"
  "groups (onFilterLoaded r b w) = groups w"
  "filter isLoad (trace (onFilterLoaded r b w)) = filter isLoad (trace w)"
  "r' \<noteq> r \<Longrightarrow> filters (onFilterLoaded r b w) ! r' = filters w ! r'"
  by (simp_all add: onFilterLoaded_def map_update_same)

lemma onFilterLoaded_state:
  "getFilter w fid = Some r \<Longrightarrow> fid' \<noteq> fid \<Longrightarrow>
   filtersState (onFilterLoaded r b w) fid' = filtersState w fid'"
  by (frule getFilter_Some) (simp add: onFilterLoaded_def notifyListeners_filtersState)

lemma onFilterLoaded_False [simp]: "onFilterLoaded r False w = w"
  by (simp add: onFilterLoaded_def)

lemma getFilter_enableFilter [simp]:
  "getFilter (worldOf (enableFilter fid w)) x = getFilter w x"
  by (rule getFilter_cong) (rule enableFilter_frame)

lemma getFilter_onFilterLoaded [simp]:
  "getFilter (onFilterLoaded r b w) x = getFilter w x"
  by (rule getFilter_cong) (rule onFilterLoaded_frame)

lemma getFilter_trace_update [simp]: "getFilter (w\<lparr>trace := t\<rparr>) x = getFilter w x"
  by (simp add: getFilter_def)

lemma loadAndEnable_frame:
  assumes "getFilter w fid = Some r"
  shows "inflight (loadAndEnable ok fid r w) = inflight w"
    and "getFilter (loadAndEnable ok fid r w) x = getFilter w x"
    and "r' \<noteq> r \<Longrightarrow> filters (loadAndEnable ok fid r w) ! r' = filters w ! r'"
    and "fid' \<noteq> fid \<Longrightarrow> filtersState (loadAndEnable ok fid r w) fid' = filtersState w fid'"
    and "filter isLoad (trace (loadAndEnable ok fid r w)) =
           filter isLoad (trace w) @
           (if needsLoad w r then [LoadRequested fid, LoadFinished fid (ok fid)] else [])"
proof -
  have g1: "getFilter (onFilterLoaded r b w) fid = Some r" for b
    using assms by simp
  have g2: "getFilter (onFilterLoaded r b (w\<lparr>trace := t\<rparr>)) fid = Some r" for b t
    using assms by simp
  show "inflight (loadAndEnable ok fid r w) = inflight w"
    by (simp add: loadAndEnable_def Let_def enableFilter_frame onFilterLoaded_frame)
  show "getFilter (loadAndEnable ok fid r w) x = getFilter w x"
    by (simp add: loadAndEnable_def Let_def)
  show "filters (loadAndEnable ok fid r w) ! r' = filters w ! r'" if "r' \<noteq> r"
    using that assms
    by (simp add: loadAndEnable_def Let_def enableFilter_other(1) [OF g1]
          enableFilter_other(1) [OF g2] enableFilter_other(1) [OF assms] onFilterLoaded_frame)
  show "filtersState (loadAndEnable ok fid r w) fid' = filtersState w fid'" if "fid' \<noteq> fid"
    using that assms
    by (simp add: loadAndEnable_def Let_def enableFilter_other(2) [OF g1]
          enableFilter_other(2) [OF g2] enableFilter_other(2) [OF assms] onFilterLoaded_state)
  show "filter isLoad (trace (loadAndEnable ok fid r w)) =
           filter isLoad (trace w) @
           (if needsLoad w r then [LoadRequested fid, LoadFinished fid (ok fid)] else [])"
    by (simp add: loadAndEnable_def Let_def enableFilter_frame onFilterLoaded_frame needsLoad_def)
qed

lemma loadAndEnable_own:
  assumes "getFilter w fid = Some r"
  shows "needsLoad w r \<and> \<not> ok fid \<Longrightarrow>
           filters (loadAndEnable ok fid r w) = filters w \<and>
           filtersState (loadAndEnable ok fid r w) = filtersState w"
    and "\<not> (needsLoad w r \<and> \<not> ok fid) \<Longrightarrow> isFilterEnabled (loadAndEnable ok fid r w) fid"
    and "\<not> (needsLoad w r \<and> \<not> ok fid) \<Longrightarrow>
           truthy (installed (filters (loadAndEnable ok fid r w) ! r))"
proof -
  have rl: "r < length (filters w)" using getFilter_Some [OF assms] by simp
  have g1: "getFilter (onFilterLoaded r b w) fid = Some r" for b
    using assms by simp
  have g2: "getFilter (onFilterLoaded r b (w\<lparr>trace := t\<rparr>)) fid = Some r" for b t
    using assms by simp
  show "needsLoad w r \<and> \<not> ok fid \<Longrightarrow>
           filters (loadAndEnable ok fid r w) = filters w \<and>
           filtersState (loadAndEnable ok fid r w) = filtersState w"
    by (simp add: loadAndEnable_def Let_def needsLoad_def)
  show "\<not> (needsLoad w r \<and> \<not> ok fid) \<Longrightarrow> isFilterEnabled (loadAndEnable ok fid r w) fid"
    using enableFilter_present(2) [OF assms] enableFilter_present(2) [OF g1]
      enableFilter_present(2) [OF g2]
    by (auto simp: loadAndEnable_def Let_def needsLoad_def)
  show "\<not> (needsLoad w r \<and> \<not> ok fid) \<Longrightarrow>
           truthy (installed (filters (loadAndEnable ok fid r w) ! r))"
    using rl
    by (auto simp: loadAndEnable_def Let_def needsLoad_def enableFilter_installed
          onFilterLoaded_def truthy_def)
qed

lemma world_inflight: "w\<lparr>trace := t, inflight := inflight w\<rparr> = w\<lparr>trace := t\<rparr>"
  by (cases w) simp

lemma deferred_answer:
  assumes "getFilter w fid = Some r"
  shows "loadFilterRulesCallback (length (inflight w)) b (loadFilterRules r (Pending r fid rest) w) =
         callback fid rest b
           (onFilterLoaded r b (w\<lparr>trace := trace w @ [LoadRequested fid, LoadFinished fid b]\<rparr>))"
proof -
  have f: "filterId (filters w ! r) = fid" using getFilter_Some [OF assms(1)] by simp
  have "loadFilterRulesCallback (length (inflight w)) b (loadFilterRules r (Pending r fid rest) w) =
        callback fid rest b
           (onFilterLoaded r b
              (w\<lparr>trace := trace w @ [LoadRequested fid, LoadFinished fid b],
                 inflight := inflight w\<rparr>))"
    using f
    by (simp add: loadFilterRulesCallback_def loadFilterRules_def del: callback.simps)
  then show ?thesis by (simp only: world_inflight)
qed

lemma callback_present:
  assumes "getFilter w fid = Some r"
  shows "callback fid rest b w =
         loadNextFilter rest (if b then worldOf (enableFilter fid w) else w)"
proof -
  obtain w' where "enableFilter fid w = Normal w'"
    using enableFilter_Normal [OF assms] by blast
  then show ?thesis by simp
qed

lemma settle_refines:
  "length ids \<le> n \<Longrightarrow>
   settle (length (inflight w)) ok n (loadNextFilter ids w) = sequentially ok ids w"
proof (induction ids arbitrary: w n)
  case Nil
  then show ?case by (cases n) simp_all
next
  case (Cons x rest)
  show ?case
  proof (cases "getFilter w x")
    case None
    then show ?thesis by (simp add: addAntiBannerFilter_def getFilterById_def)
  next
    case (Some r)
    have len: "length rest \<le> n" using Cons.prems by simp
    consider (is_installed) "truthy (installed (filters w ! r))"
      | (is_loaded) "\<not> truthy (installed (filters w ! r))" "truthy (loaded (filters w ! r))"
      | (is_deferred) "\<not> truthy (installed (filters w ! r))" "\<not> truthy (loaded (filters w ! r))"
      by blast
    then show ?thesis
    proof cases
      case is_installed
      have i: "inflight (worldOf (enableFilter x w)) = inflight w"
        by (simp add: enableFilter_frame)
      have "loadNextFilter (x # rest) w = loadNextFilter rest (worldOf (enableFilter x w))"
        using Some is_installed callback_present [OF Some, of rest True]
        by (simp add: addAntiBannerFilter_def getFilterById_def del: callback.simps)
      then show ?thesis
        using Cons.IH [OF len, of "worldOf (enableFilter x w)"] i Some is_installed
        by (simp add: loadAndEnable_def)
    next
      case is_loaded
      let ?w1 = "onFilterLoaded r True w"
      have g: "getFilter ?w1 x = Some r" using Some by simp
      have i: "inflight (worldOf (enableFilter x ?w1)) = inflight w"
        by (simp add: enableFilter_frame onFilterLoaded_frame)
      have "loadNextFilter (x # rest) w = loadNextFilter rest (worldOf (enableFilter x ?w1))"
        using Some is_loaded callback_present [OF g, of rest True]
        by (simp add: addAntiBannerFilter_def getFilterById_def del: callback.simps)
      then show ?thesis
        using Cons.IH [OF len, of "worldOf (enableFilter x ?w1)"] i Some is_loaded
        by (simp add: loadAndEnable_def)
    next
      case is_deferred
      obtain m where n: "n = Suc m" "length rest \<le> m"
        using Cons.prems by (cases n) simp_all
      let ?k = "length (inflight w)"
      let ?w1 = "loadFilterRules r (Pending r x rest) w"
      let ?w2 = "onFilterLoaded r (ok x) (w\<lparr>trace := trace w @ [LoadRequested x, LoadFinished x (ok x)]\<rparr>)"
      let ?w3 = "if ok x then worldOf (enableFilter x ?w2) else ?w2"
      have l: "loadNextFilter (x # rest) w = Normal ?w1"
        using Some is_deferred by (simp add: addAntiBannerFilter_def getFilterById_def)
      have p: "inflight ?w1 = inflight w @ [Pending r x rest]"
        by (simp add: loadFilterRules_def)
      have g: "getFilter ?w2 x = Some r" using Some by simp
      have i: "inflight ?w3 = inflight w"
        by (simp add: enableFilter_frame onFilterLoaded_frame)
      have "settle ?k ok (Suc m) (Normal ?w1) =
            settle ?k ok m (loadFilterRulesCallback ?k (ok x) ?w1)"
        using p by simp
      then have "settle ?k ok n (loadNextFilter (x # rest) w) = settle ?k ok m (loadNextFilter rest ?w3)"
        unfolding l n(1)
        using deferred_answer [OF Some, of "ok x" rest]
          callback_present [OF g, of rest "ok x"]
        by (simp only:)
      moreover have "loadAndEnable ok x r w = ?w3"
        using is_deferred by (simp add: loadAndEnable_def Let_def)
      ultimately show ?thesis
        using Cons.IH [OF n(2), of ?w3] i Some by simp
    qed
  qed
qed

subsection \<open>Loads in flight\<close>

lemma isSuffix_iff: "isSuffix s xs \<longleftrightarrow> (\<exists>pre. xs = pre @ s)"
proof
  assume "isSuffix s xs"
  then have "xs = take (length xs - length s) xs @ s"
    by (metis append_take_drop_id isSuffix_def)
  then show "\<exists>pre. xs = pre @ s" ..
next
  assume "\<exists>pre. xs = pre @ s"
  then show "isSuffix s xs" by (auto simp: isSuffix_def)
qed

lemma nextLoadOf_Cons: "nextLoadOf ids new \<Longrightarrow> nextLoadOf (a # ids) new"
proof (induction ids new rule: nextLoadOf.induct)
  case (2 ids r fid rest)
  then obtain pre where "ids = pre @ fid # rest" by (auto simp: isSuffix_iff)
  then have "a # ids = (a # pre) @ fid # rest" by simp
  then show ?case unfolding nextLoadOf.simps isSuffix_iff by blast
qed simp_all

lemma nextLoadOf_length: "nextLoadOf ids new \<Longrightarrow> length new \<le> 1"
  by (induction ids new rule: nextLoadOf.induct) simp_all

lemma addAntiBannerFilter_inflight:
  "addAntiBannerFilter fid rest w = Raised e w' \<Longrightarrow> w' = w"
  "addAntiBannerFilter fid rest w = Deferred w' \<Longrightarrow>
     \<exists>r. inflight w' = inflight w @ [Pending r fid rest]"
  "addAntiBannerFilter fid rest w = Callback b w' \<Longrightarrow> inflight w' = inflight w"
  by (auto simp: addAntiBannerFilter_def getFilterById_def loadFilterRules_def
        onFilterLoaded_frame split: option.splits if_splits)

lemma inflight_batch:
  "\<exists>new. inflight (worldOf (loadNextFilter ids w)) = inflight w @ new \<and> nextLoadOf ids new"
  "\<exists>new. inflight (worldOf (callback fid rest b w)) = inflight w @ new \<and> nextLoadOf rest new"
proof (induction ids w and fid rest b w rule: loadNextFilter_callback.induct)
  case (1 w)
  show ?case by simp
next
  case (2 fid rest w)
  show ?case
  proof (cases "addAntiBannerFilter fid rest w")
    case (Callback b w')
    obtain new where "inflight (worldOf (callback fid rest b w')) = inflight w' @ new"
      "nextLoadOf rest new"
      using "2.IH" [OF Callback] by blast
    then show ?thesis
      using Callback addAntiBannerFilter_inflight(3) [OF Callback] nextLoadOf_Cons [of rest new fid]
      by (simp del: callback.simps)
  next
    case (Deferred w')
    obtain r where "inflight w' = inflight w @ [Pending r fid rest]"
      using addAntiBannerFilter_inflight(2) [OF Deferred] by blast
    moreover have "nextLoadOf (fid # rest) [Pending r fid rest]"
      by (simp add: isSuffix_def)
    ultimately show ?thesis using Deferred by simp
  next
    case (Raised e w')
    then show ?thesis using addAntiBannerFilter_inflight(1) [OF Raised] by simp
  qed
next
  case (3 fid rest success w)
  show ?case
  proof (cases "if success then enableFilter fid w else Normal w")
    case (Normal w')
    have "inflight w' = inflight w"
      using Normal enableFilter_frame(1) [of fid w] by (auto split: if_splits)
    then show ?thesis using "3.IH" [OF Normal] Normal by simp
  next
    case (Throws e w')
    have "inflight w' = inflight w"
      using Throws enableFilter_frame(1) [of fid w] by (auto split: if_splits)
    then show ?thesis using Throws by simp
  qed
qed

lemma loadFilterRulesCallback_answer:
  assumes "i < length (inflight v)" "inflight v ! i = Pending r fid rest"
  shows "\<exists>new. inflight (worldOf (loadFilterRulesCallback i b v)) =
                 take i (inflight v) @ drop (Suc i) (inflight v) @ new \<and>
               nextLoadOf rest new"
proof -
  let ?w1 = "onFilterLoaded r b
               (v\<lparr>trace := trace v @ [LoadFinished fid b],
                  inflight := take i (inflight v) @ drop (Suc i) (inflight v)\<rparr>)"
  have "inflight ?w1 = take i (inflight v) @ drop (Suc i) (inflight v)"
    by (simp add: onFilterLoaded_frame)
  moreover obtain new where "inflight (worldOf (callback fid rest b ?w1)) = inflight ?w1 @ new"
    "nextLoadOf rest new"
    using inflight_batch(2) [of fid rest b ?w1] by blast
  ultimately show ?thesis
    using assms by (simp add: loadFilterRulesCallback_def del: callback.simps)
qed

lemma loadFilterRulesCallback_inflight:
  "length (inflight (worldOf (loadFilterRulesCallback i b w))) \<le> length (inflight w)"
proof (cases "i < length (inflight w)")
  case False
  then show ?thesis by (simp add: loadFilterRulesCallback_def)
next
  case True
  obtain r fid rest where p: "inflight w ! i = Pending r fid rest"
    by (cases "inflight w ! i") auto
  obtain new where "inflight (worldOf (loadFilterRulesCallback i b w)) =
                      take i (inflight w) @ drop (Suc i) (inflight w) @ new"
    "nextLoadOf rest new"
    using loadFilterRulesCallback_answer [OF True p, of b] by blast
  then show ?thesis using True nextLoadOf_length [of rest new] by simp
qed

lemma afterCallbacks_inflight:
  "length (inflight (afterCallbacks ds w)) \<le> length (inflight w)"
proof (induction ds arbitrary: w)
  case Nil
  show ?case by (simp add: afterCallbacks_def)
next
  case (Cons d ds)
  obtain i b where d: "d = (i, b)" by (cases d)
  have "afterCallbacks (d # ds) w = afterCallbacks ds (worldOf (loadFilterRulesCallback i b w))"
    by (simp add: afterCallbacks_def d)
  then show ?case
    using Cons.IH [of "worldOf (loadFilterRulesCallback i b w)"]
      loadFilterRulesCallback_inflight [of i b w] by simp
qed

lemma addAndEnableFilters_inflight:
  "\<exists>new. inflight (worldOf (addAndEnableFilters ids w)) = inflight w @ new \<and>
         nextLoadOf (removeDuplicates ids) new"
  using inflight_batch(1) [of "removeDuplicates ids" w]
  by (simp add: addAndEnableFilters_def)

lemma one_at_a_time:
  "length (inflight (afterCallbacks ds (worldOf (addAndEnableFilters ids w)))) \<le>
   Suc (length (inflight w))"
proof -
  obtain new where "inflight (worldOf (addAndEnableFilters ids w)) = inflight w @ new"
    "nextLoadOf (removeDuplicates ids) new"
    using addAndEnableFilters_inflight [of ids w] by blast
  then have "length (inflight (worldOf (addAndEnableFilters ids w))) \<le> Suc (length (inflight w))"
    using nextLoadOf_length [of "removeDuplicates ids" new] by simp
  then show ?thesis
    using afterCallbacks_inflight [of ds "worldOf (addAndEnableFilters ids w)"] by simp
qed

subsection \<open>The batch is the sequence of its cycles\<close>

lemma distinct_refs:
  "getFilter w x = Some r \<Longrightarrow> getFilter w y = Some r' \<Longrightarrow> x \<noteq> y \<Longrightarrow> r \<noteq> r'"
  using getFilter_Some by blast

lemma needsLoad_cong: "filters w1 ! r = filters w ! r \<Longrightarrow> needsLoad w1 r = needsLoad w r"
  by (simp add: needsLoad_def)

lemma isFilterEnabled_cong:
  "getFilter w1 y = getFilter w y \<Longrightarrow> filtersState w1 y = filtersState w y \<Longrightarrow>
   isFilterEnabled w1 y = isFilterEnabled w y"
  by (simp add: isFilterEnabled_def)

lemma sequentially_props:
  "distinct ids \<Longrightarrow> \<forall>x\<in>set ids. getFilter w x \<noteq> None \<Longrightarrow>
   \<exists>w'. sequentially ok ids w = Normal w' \<and> inflight w' = inflight w \<and>
        (\<forall>y. getFilter w' y = getFilter w y) \<and>
        filter isLoad (trace w') = filter isLoad (trace w) @ loaderCalls ok w ids \<and>
        (\<forall>y r. y \<notin> set ids \<longrightarrow> getFilter w y = Some r \<longrightarrow>
           filters w' ! r = filters w ! r \<and> filtersState w' y = filtersState w y) \<and>
        (\<forall>x r. x \<in> set ids \<longrightarrow> getFilter w x = Some r \<longrightarrow>
           (if needsLoad w r \<and> \<not> ok x
            then filters w' ! r = filters w ! r \<and> filtersState w' x = filtersState w x
            else isFilterEnabled w' x \<and> truthy (installed (filters w' ! r))))"
proof (induction ids arbitrary: w)
  case Nil
  show ?case by (simp add: loaderCalls_def)
next
  case (Cons x rest)
  obtain r where r: "getFilter w x = Some r" using Cons.prems(2) by auto
  define w1 where "w1 = loadAndEnable ok x r w"
  note fr = loadAndEnable_frame [OF r, where ok = ok, folded w1_def]
  note own = loadAndEnable_own [OF r, where ok = ok, folded w1_def]
  have d: "distinct rest" "x \<notin> set rest" using Cons.prems(1) by simp_all
  have pres: "\<forall>y\<in>set rest. getFilter w1 y \<noteq> None" using Cons.prems(2) fr(2) by simp
  from Cons.IH [OF d(1) pres] obtain w' where ih:
    "sequentially ok rest w1 = Normal w' \<and> inflight w' = inflight w1 \<and>
        (\<forall>y. getFilter w' y = getFilter w1 y) \<and>
        filter isLoad (trace w') = filter isLoad (trace w1) @ loaderCalls ok w1 rest \<and>
        (\<forall>y r. y \<notin> set rest \<longrightarrow> getFilter w1 y = Some r \<longrightarrow>
           filters w' ! r = filters w1 ! r \<and> filtersState w' y = filtersState w1 y) \<and>
        (\<forall>x r. x \<in> set rest \<longrightarrow> getFilter w1 x = Some r \<longrightarrow>
           (if needsLoad w1 r \<and> \<not> ok x
            then filters w' ! r = filters w1 ! r \<and> filtersState w' x = filtersState w1 x
            else isFilterEnabled w' x \<and> truthy (installed (filters w' ! r))))" ..
  have w': "sequentially ok rest w1 = Normal w'" "inflight w' = inflight w1"
    "\<And>y. getFilter w' y = getFilter w1 y"
    "filter isLoad (trace w') = filter isLoad (trace w1) @ loaderCalls ok w1 rest"
    using ih by simp_all
  have w'5: "filters w' ! ry = filters w1 ! ry \<and> filtersState w' y = filtersState w1 y"
    if "y \<notin> set rest" "getFilter w1 y = Some ry" for y ry
    using ih that by simp
  have w'6: "if needsLoad w1 rz \<and> \<not> ok z
         then filters w' ! rz = filters w1 ! rz \<and> filtersState w' z = filtersState w1 z
         else isFilterEnabled w' z \<and> truthy (installed (filters w' ! rz))"
    if "z \<in> set rest" "getFilter w1 z = Some rz" for z rz
    using ih that by simp
  have other: "filters w1 ! ry = filters w ! ry \<and> filtersState w1 y = filtersState w y"
    if "y \<noteq> x" "getFilter w y = Some ry" for y ry
    using fr(3) [of ry] fr(4) [of y] distinct_refs [OF r that(2)] that(1) by auto
  have rl: "requiresLoader w1 y = requiresLoader w y" if "y \<in> set rest" for y
  proof (cases "getFilter w y")
    case None
    then show ?thesis by (simp add: requiresLoader_def fr(2))
  next
    case (Some ry)
    have "y \<noteq> x" using that d(2) by auto
    then have "needsLoad w1 ry = needsLoad w ry"
      using other [OF _ Some] by (intro needsLoad_cong) simp
    then show ?thesis using Some by (simp add: requiresLoader_def fr(2))
  qed
  have "filter (requiresLoader w1) rest = filter (requiresLoader w) rest"
    by (rule filter_cong) (simp_all add: rl)
  then have lc: "loaderCalls ok w1 rest = loaderCalls ok w rest"
    by (simp add: loaderCalls_def)
  have lx: "loaderCalls ok w (x # rest) =
              (if needsLoad w r then [LoadRequested x, LoadFinished x (ok x)] else []) @
              loaderCalls ok w rest"
    using r by (simp add: loaderCalls_def requiresLoader_def)
  have a: "sequentially ok (x # rest) w = Normal w'" using r w'(1) by (simp add: w1_def)
  have b: "inflight w' = inflight w" using w'(2) fr(1) by simp
  have c: "\<forall>y. getFilter w' y = getFilter w y" using w'(3) fr(2) by simp
  have e: "filter isLoad (trace w') = filter isLoad (trace w) @ loaderCalls ok w (x # rest)"
    using w'(4) fr(5) lc lx by simp
  have f: "filters w' ! ry = filters w ! ry \<and> filtersState w' y = filtersState w y"
    if "y \<notin> set (x # rest)" "getFilter w y = Some ry" for y ry
  proof -
    have "y \<noteq> x" "y \<notin> set rest" using that(1) by simp_all
    then show ?thesis
      using w'5 [of y ry] other [of y ry] that(2) fr(2) by simp
  qed
  have g: "if needsLoad w rz \<and> \<not> ok z
           then filters w' ! rz = filters w ! rz \<and> filtersState w' z = filtersState w z
           else isFilterEnabled w' z \<and> truthy (installed (filters w' ! rz))"
    if "z \<in> set (x # rest)" "getFilter w z = Some rz" for z rz
  proof (cases "z = x")
    case True
    then have rz: "rz = r" using that(2) r by simp
    have keep: "filters w' ! r = filters w1 ! r \<and> filtersState w' x = filtersState w1 x"
      using w'5 [of x r] d(2) r fr(2) by simp
    show ?thesis
    proof (cases "needsLoad w r \<and> \<not> ok x")
      case True
      then show ?thesis using own(1) keep \<open>z = x\<close> rz by simp
    next
      case False
      have "isFilterEnabled w' x = isFilterEnabled w1 x"
        using keep w'(3) by (intro isFilterEnabled_cong) simp_all
      moreover have "installed (filters w' ! r) = installed (filters w1 ! r)"
        using keep by simp
      ultimately show ?thesis using own(2,3) False \<open>z = x\<close> rz by auto
    qed
  next
    case False
    then have zr: "z \<in> set rest" using that(1) by simp
    have o: "filters w1 ! rz = filters w ! rz \<and> filtersState w1 z = filtersState w z"
      using other [OF False that(2)] .
    have "needsLoad w1 rz = needsLoad w rz" using o by (intro needsLoad_cong) simp
    then show ?thesis
      using w'6 [OF zr, of rz] that(2) fr(2) o by simp
  qed
  show ?case
  proof (intro exI [of _ w'] conjI allI impI)
    show "sequentially ok (x # rest) w = Normal w'" by (rule a)
    show "inflight w' = inflight w" by (rule b)
    show "getFilter w' y = getFilter w y" for y using c by simp
    show "filter isLoad (trace w') = filter isLoad (trace w) @ loaderCalls ok w (x # rest)"
      by (rule e)
  next
    fix y ry assume "y \<notin> set (x # rest)" "getFilter w y = Some ry"
    then show "filters w' ! ry = filters w ! ry" "filtersState w' y = filtersState w y"
      using f by simp_all
  next
    fix z rz assume "z \<in> set (x # rest)" "getFilter w z = Some rz"
    then show "if needsLoad w rz \<and> \<not> ok z
           then filters w' ! rz = filters w ! rz \<and> filtersState w' z = filtersState w z
           else isFilterEnabled w' z \<and> truthy (installed (filters w' ! rz))"
      by (rule g)
  qed
qed

lemma addAndEnableFilters_eq:
  "addAndEnableFilters ids w = loadNextFilter (removeDuplicates ids) w"
  by (simp add: addAndEnableFilters_def)

lemma sequentially_append:
  "sequentially ok (xs @ ys) w =
     (case sequentially ok xs w of Normal w' \<Rightarrow> sequentially ok ys w' | Throws e w' \<Rightarrow> Throws e w')"
  by (induction xs arbitrary: w) (simp_all split: option.splits)

lemma loadNextFilter_no_loader:
  "distinct pre \<Longrightarrow> \<forall>x\<in>set pre. \<not> requiresLoader w x \<Longrightarrow>
   \<forall>x\<in>set pre. getFilter w x \<noteq> None \<Longrightarrow>
   loadNextFilter (pre @ suf) w = loadNextFilter suf (worldOf (sequentially ok pre w))"
proof (induction pre arbitrary: w)
  case Nil
  show ?case by simp
next
  case (Cons x rest)
  obtain r where r: "getFilter w x = Some r" using Cons.prems(3) by auto
  define w1 where "w1 = loadAndEnable ok x r w"
  note fr = loadAndEnable_frame [OF r, where ok = ok, folded w1_def]
  have nl: "\<not> needsLoad w r" using Cons.prems(2) r by (simp add: requiresLoader_def)
  have d: "distinct rest" "x \<notin> set rest" using Cons.prems(1) by simp_all
  have n1: "\<not> requiresLoader w1 y" if "y \<in> set rest" for y
  proof (cases "getFilter w y")
    case None
    then show ?thesis by (simp add: requiresLoader_def fr(2))
  next
    case (Some ry)
    have "ry \<noteq> r" using distinct_refs [OF r Some] that d(2) by auto
    then have "needsLoad w1 ry = needsLoad w ry"
      using fr(3) [of ry] by (intro needsLoad_cong) simp
    moreover have "\<not> requiresLoader w y" using Cons.prems(2) that by simp
    then have "\<not> needsLoad w ry" using Some by (simp add: requiresLoader_def)
    ultimately show ?thesis using Some by (simp add: requiresLoader_def fr(2))
  qed
  have p1: "\<forall>y\<in>set rest. getFilter w1 y \<noteq> None" using Cons.prems(3) fr(2) by simp
  have ih: "loadNextFilter (rest @ suf) w1 = loadNextFilter suf (worldOf (sequentially ok rest w1))"
    using Cons.IH [OF d(1) _ p1] n1 by simp
  have g: "getFilter (onFilterLoaded r True w) x = Some r" using r by simp
  have "loadNextFilter ((x # rest) @ suf) w = loadNextFilter (rest @ suf) w1"
    using r nl callback_present [OF r, of "rest @ suf" True]
      callback_present [OF g, of "rest @ suf" True]
    by (auto simp: addAntiBannerFilter_def getFilterById_def w1_def loadAndEnable_def
          needsLoad_def simp del: callback.simps)
  then show ?case using ih r by (simp add: w1_def)
qed

subsection \<open>The recommendation query changes annotations only\<close>

lemma sameState_refl [simp]: "sameState w w"
  by (simp add: sameState_def)

lemma sameState_trans: "sameState w w1 \<Longrightarrow> sameState w1 w2 \<Longrightarrow> sameState w w2"
  by (simp add: sameState_def)

lemma sameState_setTagsDetails [simp]: "sameState w (setTagsDetails r ds w)"
  by (simp add: sameState_def) (simp add: setTagsDetails_def)

lemma sameState_setKeyword [simp]: "sameState w (setKeyword t k w)"
  by (simp add: sameState_def setKeyword_def)

lemma sameState_annotateTag [simp]: "sameState w (annotateTag r w tid)"
proof (cases "findIndex (\<lambda>t. tagId t = tid) (tagCatalog w)")
  case None
  then show ?thesis by (simp add: annotateTag_def)
next
  case (Some t)
  show ?thesis
    using sameState_trans [OF sameState_setKeyword sameState_setTagsDetails]
    by (simp add: annotateTag_def Some Let_def)
qed

lemma sameState_foldl:
  assumes "\<And>w x. sameState w (f w x)"
  shows "sameState w (foldl f w xs)"
proof (induction xs arbitrary: w)
  case Nil
  show ?case by simp
next
  case (Cons x xs)
  show ?case using sameState_trans [OF assms [of w x] Cons [of "f w x"]] by simp
qed

lemma sameState_annotateFilter [simp]: "sameState w (annotateFilter w r)"
  unfolding annotateFilter_def
  by (rule sameState_trans [OF sameState_setTagsDetails])
     (rule sameState_foldl, rule sameState_annotateTag)

lemma sameState_getFilters [simp]: "sameState w (snd (getFilters w))"
  by (simp add: getFilters_def Let_def sameState_foldl)

lemma sameState_setCategoryFilters [simp]: "sameState w (setCategoryFilters fs w c)"
  by (simp add: sameState_def) (simp add: setCategoryFilters_def map_update_same)

lemma sameState_getFiltersMetadata [simp]: "sameState w (snd (getFiltersMetadata w))"
proof -
  obtain fs1 w1 where g1: "getFilters w = (fs1, w1)" by (cases "getFilters w")
  define w2 where "w2 = foldl (setCategoryFilters fs1) w1 [0..<length (groups w1)]"
  obtain fs3 w3 where g3: "getFilters w2 = (fs3, w3)" by (cases "getFilters w2")
  have "sameState w w1" using sameState_getFilters [of w] g1 by simp
  moreover have "sameState w1 w2"
    unfolding w2_def by (rule sameState_foldl) (rule sameState_setCategoryFilters)
  moreover have "sameState w2 w3" using sameState_getFilters [of w2] g3 by simp
  moreover have "snd (getFiltersMetadata w) = w3"
    using g1 g3 by (simp add: getFiltersMetadata_def Let_def w2_def)
  ultimately show ?thesis using sameState_trans by metis
qed

lemma snd_getRecommended:
  "snd (getRecommendedFilterIdsByGroupId e gid w) = snd (getFiltersMetadata w)"
  by (simp add: getRecommendedFilterIdsByGroupId_def Let_def split: prod.splits option.splits)

lemma sameState_getRecommended [simp]:
  "sameState w (snd (getRecommendedFilterIdsByGroupId e gid w))"
  by (simp add: snd_getRecommended)

lemma recommended_present:
  assumes "fid \<in> set (fst (getRecommendedFilterIdsByGroupId e gid w))"
  shows "getFilter (snd (getRecommendedFilterIdsByGroupId e gid w)) fid \<noteq> None"
proof -
  obtain fs cs w' where m: "getFiltersMetadata w = ((fs, cs), w')"
    by (metis prod.exhaust)
  note fr = getFiltersMetadata_frame [OF m]
  have s: "snd (getRecommendedFilterIdsByGroupId e gid w) = w'"
    using m by (simp add: snd_getRecommended)
  show ?thesis
  proof (cases "firstCategory gid w' cs")
    case None
    then show ?thesis using assms m by (simp add: getRecommendedFilterIdsByGroupId_def)
  next
    case (Some c)
    then have c: "c < length (groups w)" using firstCategory_Some [OF Some] fr(3) by simp
    from assms m Some obtain r where r: "r \<in> set (filtersG (groups w' ! c))"
      "fid = filterId (filters w' ! r)"
      by (auto simp: getRecommendedFilterIdsByGroupId_def)
    have "r < length (filters w)" using fr(4) c r(1) by blast
    then have "r < length (filters w')" using fr(1) by (metis length_map)
    then have "filters w' ! r \<in> set (filters w')" by simp
    then show ?thesis using r(2) unfolding s getFilter_def findIndex_None by blast
  qed
qed

lemma length_removeDuplicates: "length (removeDuplicates xs) \<le> length xs"
proof (induction xs rule: removeDuplicates.induct)
  case 1
  show ?case by simp
next
  case (2 x xs)
  have "length (removeDuplicates (filter (\<lambda>y. y \<noteq> x) xs)) \<le> length xs"
    using 2 length_filter_le [of "\<lambda>y. y \<noteq> x" xs] by (rule le_trans)
  then show ?case by simp
qed

lemma sameState_lookup:
  assumes "sameState w w'"
  shows "getFilter w' x = getFilter w x"
    and "getGroup w' y = getGroup w y"
    and "g < length (groups w) \<Longrightarrow> enabledG (groups w' ! g) = enabledG (groups w ! g)"
    and "getFilter w x = Some r \<Longrightarrow> needsLoad w' r = needsLoad w r"
proof -
  have c: "map core (filters w') = map core (filters w)"
    and gi: "map groupIdG (groups w') = map groupIdG (groups w)"
    and ge: "map enabledG (groups w') = map enabledG (groups w)"
    using assms by (simp_all add: sameState_def)
  have "map filterId (map core (filters w')) = map filterId (map core (filters w))"
    using c by simp
  then have "map filterId (filters w') = map filterId (filters w)" by (simp add: comp_def)
  then show "getFilter w' x = getFilter w x" by (rule getFilter_cong)
  show "getGroup w' y = getGroup w y" using gi by (rule getGroup_cong)
  show "enabledG (groups w' ! g) = enabledG (groups w ! g)" if "g < length (groups w)"
    using ge that by (metis length_map nth_map)
  show "needsLoad w' r = needsLoad w r" if "getFilter w x = Some r"
  proof -
    have "r < length (filters w)" using getFilter_Some [OF that] by simp
    then have "core (filters w' ! r) = core (filters w ! r)" using nth_map_core [OF c] by simp
    then have "installed (filters w' ! r) = installed (filters w ! r)"
      "loaded (filters w' ! r) = loaded (filters w ! r)"
      by (metis core_fields(7), metis core_fields(8))
    then show ?thesis by (simp add: needsLoad_def)
  qed
qed

subsection \<open>A batch toggles a never-toggled group at most once\<close>

lemma groupToggled_refl [simp]: "groupToggled gid g w w"
  by (simp add: groupToggled_def)

lemma groupToggled_trans:
  "groupToggled gid g w w1 \<Longrightarrow> groupToggled gid g w1 w2 \<Longrightarrow> groupToggled gid g w w2"
  by (auto simp: groupToggled_def)

lemma groupToggled_same:
  "groups w' = groups w \<Longrightarrow> groupEvents gid (trace w') = groupEvents gid (trace w) \<Longrightarrow>
   groupToggled gid g w w'"
  by (simp add: groupToggled_def)

lemma enableGroup_fresh:
  assumes "getGroup w gid = Some g" "enabledG (groups w ! g) = None"
  shows "enabledG (groups (enableGroup gid w) ! g) = Some True"
    and "trace (enableGroup gid w) = trace w @ [Notify FILTER_GROUP_ENABLE_DISABLE gid]"
    and "\<And>g'. g' \<noteq> g \<Longrightarrow> groups (enableGroup gid w) ! g' = groups w ! g'"
  using assms getGroup_Some [OF assms(1)]
  by (simp_all add: enableGroup_def truthy_def)

lemma enableGroup_on:
  "getGroup w gid = Some g \<Longrightarrow> enabledG (groups w ! g) = Some True \<Longrightarrow> enableGroup gid w = w"
  by (simp add: enableGroup_def truthy_def)

lemma enableGroup_absent: "getGroup w gid = None \<Longrightarrow> enableGroup gid w = w"
  by (simp add: enableGroup_def)

lemma groupToggled_enableGroup_unset:
  assumes "getGroup w gid = Some g" "\<not> groupHasEnabledStatus w gid'"
  shows "groupToggled gid g w (enableGroup gid' w)"
proof (cases "getGroup w gid'")
  case None
  then show ?thesis by (simp add: enableGroup_absent)
next
  case (Some g')
  have un: "enabledG (groups w ! g') = None"
    using assms(2) Some by (simp add: groupHasEnabledStatus_def)
  note fr = enableGroup_fresh [OF Some un]
  show ?thesis
  proof (cases "gid' = gid")
    case True
    then have "g' = g" using Some assms(1) by simp
    then show ?thesis using fr(1,2) un True by (simp add: groupToggled_def groupEvents_def)
  next
    case False
    then have "g' \<noteq> g" using getGroup_Some [OF Some] getGroup_Some [OF assms(1)] by auto
    then show ?thesis using fr(2) fr(3) [of g] False by (simp add: groupToggled_def groupEvents_def)
  qed
qed

lemma groupToggled_enableFilter:
  assumes "getGroup w gid = Some g"
  shows "groupToggled gid g w (worldOf (enableFilter fid w))"
proof (cases "isFilterEnabled w fid")
  case True
  then show ?thesis by (simp add: enableFilter_enabled)
next
  case False
  show ?thesis
  proof (cases "getFilter w fid")
    case None
    then show ?thesis using False by (simp add: enableFilter_def)
  next
    case (Some r)
    define w1 where "w1 = updFilter r (\<lambda>f. f\<lparr>enabled := Some True\<rparr>) w"
    define w2 where "w2 = (if \<not> groupHasEnabledStatus w1 (groupId (filters w1 ! r))
                           then enableGroup (groupId (filters w1 ! r)) w1 else w1)"
    have e: "worldOf (enableFilter fid w) = notifyListeners FILTER_ENABLE_DISABLE r w2"
      using False Some by (simp add: enableFilter_def Let_def w1_def w2_def)
    have g1: "getGroup w1 gid = Some g" using assms by (simp add: getGroup_def w1_def)
    have a: "groupToggled gid g w w1"
      by (rule groupToggled_same) (simp_all add: w1_def)
    have b: "groupToggled gid g w1 w2"
      unfolding w2_def using groupToggled_enableGroup_unset [OF g1] by simp
    have c: "groupToggled gid g w2 (notifyListeners FILTER_ENABLE_DISABLE r w2)"
      by (rule groupToggled_same) (simp_all add: groupEvents_def)
    show ?thesis unfolding e using groupToggled_trans [OF groupToggled_trans [OF a b] c] .
  qed
qed

lemma groupToggled_onFilterLoaded: "groupToggled gid g w (onFilterLoaded r b w)"
  by (rule groupToggled_same) (simp_all add: onFilterLoaded_def groupEvents_def)

lemma groupToggled_loadFilterRules: "groupToggled gid g w (loadFilterRules r p w)"
  by (rule groupToggled_same) (simp_all add: loadFilterRules_def groupEvents_def)

lemma getGroup_toggled: "groupToggled gid g w w' \<Longrightarrow> getGroup w' x = getGroup w x"
  by (rule getGroup_cong) (simp add: groupToggled_def)

lemma loadNextFilter_present:
  assumes "getFilter w x = Some r"
  shows "loadNextFilter (x # rest) w =
     (if truthy (installed (filters w ! r)) then loadNextFilter rest (worldOf (enableFilter x w))
      else if truthy (loaded (filters w ! r))
      then loadNextFilter rest (worldOf (enableFilter x (onFilterLoaded r True w)))
      else Normal (loadFilterRules r (Pending r x rest) w))"
proof -
  have g: "getFilter (onFilterLoaded r True w) x = Some r" using assms by simp
  show ?thesis
    using assms callback_present [OF assms, of rest True] callback_present [OF g, of rest True]
    by (simp add: addAntiBannerFilter_def getFilterById_def del: callback.simps)
qed

lemma loadNextFilter_defers:
  assumes "distinct pre" "\<forall>x\<in>set pre. getFilter w x \<noteq> None" "\<exists>x\<in>set pre. requiresLoader w x"
  shows "\<exists>p1 x p2 r. pre = p1 @ x # p2 \<and> (\<forall>y\<in>set p1. \<not> requiresLoader w y) \<and>
           requiresLoader w x \<and> getFilter w x = Some r \<and>
           thrown (loadNextFilter (pre @ suf) w) = None \<and>
           inflight (worldOf (loadNextFilter (pre @ suf) w)) =
             inflight w @ [Pending r x (p2 @ suf)]"
proof -
  from split_list_first_prop [OF assms(3)] obtain p1 x p2 where sp:
    "pre = p1 @ x # p2" "requiresLoader w x" "\<forall>y\<in>set p1. \<not> requiresLoader w y"
    by blast
  obtain r where r: "getFilter w x = Some r" "needsLoad w r"
    using sp(2) by (auto simp: requiresLoader_def split: option.splits)
  have d: "distinct p1" "x \<notin> set p1" using assms(1) sp(1) by simp_all
  have pres: "\<forall>y\<in>set p1. getFilter w y \<noteq> None" using assms(2) sp(1) by simp
  from sequentially_props [OF d(1) pres, of "\<lambda>_. True"] obtain w' where w':
    "sequentially (\<lambda>_. True) p1 w = Normal w' \<and> inflight w' = inflight w \<and>
        (\<forall>y. getFilter w' y = getFilter w y) \<and>
        filter isLoad (trace w') = filter isLoad (trace w) @ loaderCalls (\<lambda>_. True) w p1 \<and>
        (\<forall>y r. y \<notin> set p1 \<longrightarrow> getFilter w y = Some r \<longrightarrow>
           filters w' ! r = filters w ! r \<and> filtersState w' y = filtersState w y) \<and>
        (\<forall>x r. x \<in> set p1 \<longrightarrow> getFilter w x = Some r \<longrightarrow>
           (if needsLoad w r \<and> \<not> True
            then filters w' ! r = filters w ! r \<and> filtersState w' x = filtersState w x
            else isFilterEnabled w' x \<and> truthy (installed (filters w' ! r))))" ..
  have g': "getFilter w' x = Some r" using w' r(1) by simp
  have "filters w' ! r = filters w ! r" using w' d(2) r(1) by blast
  then have n': "\<not> truthy (installed (filters w' ! r))" "\<not> truthy (loaded (filters w' ! r))"
    using r(2) by (simp_all add: needsLoad_def)
  have "loadNextFilter (pre @ suf) w = loadNextFilter (x # p2 @ suf) w'"
    using loadNextFilter_no_loader [OF d(1) sp(3) pres, of "x # p2 @ suf" "\<lambda>_. True"] w' sp(1)
    by simp
  also have "\<dots> = Normal (loadFilterRules r (Pending r x (p2 @ suf)) w')"
    using loadNextFilter_present [OF g', of "p2 @ suf"] n' by simp
  finally have l: "loadNextFilter (pre @ suf) w =
                   Normal (loadFilterRules r (Pending r x (p2 @ suf)) w')" .
  have "inflight (loadFilterRules r (Pending r x (p2 @ suf)) w') =
        inflight w @ [Pending r x (p2 @ suf)]"
    using w' by (simp add: loadFilterRules_def)
  then show ?thesis using sp r(1) l by (intro exI [of _ p1] exI [of _ x] exI [of _ p2] exI [of _ r]) simp
qed

lemma loadNextFilter_seeds:
  "\<forall>x\<in>set ids. getFilter w x \<noteq> None \<Longrightarrow> getGroup w gid = Some g \<Longrightarrow>
   thrown (loadNextFilter ids w) = None \<and> groupToggled gid g w (worldOf (loadNextFilter ids w))"
proof (induction ids arbitrary: w)
  case Nil
  show ?case by simp
next
  case (Cons x rest)
  obtain r where r: "getFilter w x = Some r" using Cons.prems(1) by auto
  note un = loadNextFilter_present [OF r, of rest]
  have step: "thrown (loadNextFilter rest w1) = None \<and>
              groupToggled gid g w (worldOf (loadNextFilter rest w1))"
    if "groupToggled gid g w w1" "\<And>y. getFilter w1 y = getFilter w y" for w1
  proof -
    have "\<forall>y\<in>set rest. getFilter w1 y \<noteq> None" using Cons.prems(1) that(2) by simp
    moreover have "getGroup w1 gid = Some g" using getGroup_toggled [OF that(1)] Cons.prems(2) by simp
    ultimately show ?thesis using Cons.IH [of w1] groupToggled_trans [OF that(1)] by blast
  qed
  consider (is_installed) "truthy (installed (filters w ! r))"
    | (is_loaded) "\<not> truthy (installed (filters w ! r))" "truthy (loaded (filters w ! r))"
    | (is_deferred) "\<not> truthy (installed (filters w ! r))" "\<not> truthy (loaded (filters w ! r))"
    by blast
  then show ?case
  proof cases
    case is_installed
    show ?thesis
      unfolding un using is_installed step [OF groupToggled_enableFilter [OF Cons.prems(2)]]
      by simp
  next
    case is_loaded
    have g1: "getGroup (onFilterLoaded r True w) gid = Some g"
      using Cons.prems(2) getGroup_toggled [OF groupToggled_onFilterLoaded] by simp
    have t: "groupToggled gid g w (worldOf (enableFilter x (onFilterLoaded r True w)))"
      using groupToggled_trans [OF groupToggled_onFilterLoaded groupToggled_enableFilter [OF g1]] .
    show ?thesis unfolding un using is_loaded step [OF t] by simp
  next
    case is_deferred
    show ?thesis unfolding un using is_deferred groupToggled_loadFilterRules by simp
  qed
qed

lemma enableFiltersGroup_again:
  "getGroup w gid = Some g \<Longrightarrow> enabledG (groups w ! g) = Some True \<Longrightarrow>
   enableFiltersGroup e gid w = Normal w"
  by (simp add: enableFiltersGroup_def enableGroup_on)

subsection \<open>The pipeline's effect on filters does not depend on groups\<close>

lemma outcomesAgree_cases:
  assumes "outcomesAgree a b"
  obtains (normal) w w' where "a = Normal w" "b = Normal w'" "filtersAgree w w'"
    | (throws) e w w' where "a = Throws e w" "b = Throws e w'" "filtersAgree w w'"
  using assms by (cases a; cases b) (auto simp: outcomesAgree_def)

lemma outcomesAgree_Normal [simp]: "outcomesAgree (Normal w) (Normal w') = filtersAgree w w'"
  by (simp add: outcomesAgree_def)

lemma outcomesAgree_Throws [simp]:
  "outcomesAgree (Throws e w) (Throws e' w') = (e = e' \<and> filtersAgree w w')"
  by (simp add: outcomesAgree_def)

lemma filtersAgree_lookup:
  assumes "filtersAgree w w'"
  shows "getFilter w x = getFilter w' x" and "isFilterEnabled w x = isFilterEnabled w' x"
  using assms by (simp_all add: filtersAgree_def getFilter_def isFilterEnabled_def)

lemma agree_enableFilter:
  assumes "filtersAgree w w'"
  shows "outcomesAgree (enableFilter x w) (enableFilter x w')"
proof (cases "isFilterEnabled w x")
  case True
  then show ?thesis
    using assms filtersAgree_lookup(2) [OF assms, of x] by (simp add: enableFilter_enabled)
next
  case False
  then have f': "\<not> isFilterEnabled w' x" using filtersAgree_lookup(2) [OF assms, of x] by simp
  show ?thesis
  proof (cases "getFilter w x")
    case None
    then have "getFilter w' x = None" using filtersAgree_lookup(1) [OF assms, of x] by simp
    then show ?thesis using None False f' assms by (simp add: enableFilter_def)
  next
    case (Some r)
    then have "getFilter w' x = Some r" using filtersAgree_lookup(1) [OF assms, of x] by simp
    then show ?thesis
      using Some False f' assms
      by (simp add: enableFilter_def Let_def filtersAgree_def notifyListeners_filtersState)
  qed
qed

lemma agree_onFilterLoaded:
  "filtersAgree w w' \<Longrightarrow> filtersAgree (onFilterLoaded r b w) (onFilterLoaded r b w')"
  by (simp add: onFilterLoaded_def filtersAgree_def notifyListeners_filtersState)

lemma agree_loadNextFilter:
  "filtersAgree w w' \<Longrightarrow> outcomesAgree (loadNextFilter ids w) (loadNextFilter ids w')"
proof (induction ids arbitrary: w w')
  case Nil
  then show ?case by simp
next
  case (Cons x rest)
  note ag = Cons.prems
  show ?case
  proof (cases "getFilter w x")
    case None
    then have "getFilter w' x = None" using filtersAgree_lookup(1) [OF ag, of x] by simp
    then show ?thesis using None ag by (simp add: addAntiBannerFilter_def getFilterById_def)
  next
    case (Some r)
    then have s': "getFilter w' x = Some r" using filtersAgree_lookup(1) [OF ag, of x] by simp
    have fl: "filters w' = filters w" using ag by (simp add: filtersAgree_def)
    have a1: "filtersAgree (worldOf (enableFilter x w)) (worldOf (enableFilter x w'))"
      using agree_enableFilter [OF ag, of x] by (simp add: outcomesAgree_def)
    have a2: "filtersAgree (worldOf (enableFilter x (onFilterLoaded r True w)))
                           (worldOf (enableFilter x (onFilterLoaded r True w')))"
      using agree_enableFilter [OF agree_onFilterLoaded [OF ag], of x r True]
      by (simp add: outcomesAgree_def)
    have a3: "filtersAgree (loadFilterRules r (Pending r x rest) w)
                           (loadFilterRules r (Pending r x rest) w')"
      using ag by (simp add: filtersAgree_def loadFilterRules_def)
    show ?thesis
      unfolding loadNextFilter_present [OF Some] loadNextFilter_present [OF s'] fl
      using Cons.IH [OF a1] Cons.IH [OF a2] a3 by simp
  qed
qed

lemma agree_callback:
  assumes "filtersAgree w w'"
  shows "outcomesAgree (callback x rest b w) (callback x rest b w')"
proof (cases b)
  case False
  then show ?thesis using agree_loadNextFilter [OF assms] by simp
next
  case True
  from agree_enableFilter [OF assms, of x] show ?thesis
  proof (cases rule: outcomesAgree_cases)
    case (normal v v')
    then show ?thesis using True agree_loadNextFilter [of v v' rest] by simp
  next
    case (throws e v v')
    then show ?thesis using True by simp
  qed
qed

lemma agree_loadFilterRulesCallback:
  assumes "filtersAgree w w'"
  shows "outcomesAgree (loadFilterRulesCallback i b w) (loadFilterRulesCallback i b w')"
proof -
  have i: "inflight w' = inflight w" using assms by (simp add: filtersAgree_def)
  show ?thesis
  proof (cases "i < length (inflight w)")
    case False
    then show ?thesis using assms i by (simp add: loadFilterRulesCallback_def)
  next
    case True
    obtain r fid rest where p: "inflight w ! i = Pending r fid rest"
      by (cases "inflight w ! i") auto
    have "filtersAgree
            (w\<lparr>trace := trace w @ [LoadFinished fid b],
               inflight := take i (inflight w) @ drop (Suc i) (inflight w)\<rparr>)
            (w'\<lparr>trace := trace w' @ [LoadFinished fid b],
               inflight := take i (inflight w) @ drop (Suc i) (inflight w)\<rparr>)"
      using assms by (simp add: filtersAgree_def)
    then show ?thesis
      using True p i agree_callback [OF agree_onFilterLoaded]
      by (simp add: loadFilterRulesCallback_def del: callback.simps)
  qed
qed

lemma agree_settle:
  "outcomesAgree a b \<Longrightarrow> outcomesAgree (settle k ok n a) (settle k ok n b)"
proof (induction n arbitrary: a b)
  case 0
  from "0.prems" show ?case by (cases rule: outcomesAgree_cases) simp_all
next
  case (Suc n)
  from Suc.prems show ?case
  proof (cases rule: outcomesAgree_cases)
    case (throws e w w')
    then show ?thesis by simp
  next
    case (normal w w')
    have i: "inflight w' = inflight w" using normal(3) by (simp add: filtersAgree_def)
    show ?thesis
    proof (cases "k < length (inflight w)")
      case False
      then show ?thesis using normal i by simp
    next
      case True
      obtain r fid rest where p: "inflight w ! k = Pending r fid rest"
        by (cases "inflight w ! k") auto
      show ?thesis
        using normal(1,2) True i p
          Suc.IH [OF agree_loadFilterRulesCallback [OF normal(3), of k "ok fid"]]
        by simp
    qed
  qed
qed

section \<open>Properties of the category selector\<close>

text \<open>
  C4: \<^verbatim>\<open>isOfferedFilter\<close> returns true whenever the filter's id is the platform filter
  id, whatever its tags, its languages, the language-suitable ids and the mobile check.
\<close>

theorem isOfferedFilter_platform:
  "filterId f = platformFilterId \<Longrightarrow> isOfferedFilter e f langSuitableFilterIds platformFilterId"
  by (simp add: isOfferedFilter_def)

text \<open>
  Witness for C4: a filter with the platform id \<open>12\<close>, no tag and no language is offered
  for an empty list of language-suitable ids.
\<close>

theorem isOfferedFilter_platform_witness:
  "filterId (mkFilter 12 7 []) = 12 \<and> isOfferedFilter exampleEnv (mkFilter 12 7 []) [] 12"
proof -
  have h: "filterId (mkFilter 12 7 []) = 12" by (simp add: mkFilter_def)
  show ?thesis using h isOfferedFilter_platform [OF h, of exampleEnv "[]"] by simp
qed

text \<open>
  C5, as stated, fails: the platform filter is offered without the recommended tag. In a
  catalog whose group \<open>7\<close> holds the platform filter \<open>12\<close>, with no tag at all, the
  recommended ids of group \<open>7\<close> contain \<open>12\<close>.
\<close>

theorem recommended_ids_counterexample:
  "12 \<in> set (fst (getRecommendedFilterIdsByGroupId exampleEnv 7 (mkWorld [mkFilter 12 7 []] []))) \<and>
   getFilter (mkWorld [mkFilter 12 7 []] []) 12 = Some 0 \<and>
   \<not> isRecommendedFilter exampleEnv (filters (mkWorld [mkFilter 12 7 []] []) ! 0)"
  by code_simp

text \<open>
  C5, amended: every id returned by \<^verbatim>\<open>getRecommendedFilterIdsByGroupId\<close> is the
  platform filter id or the id of a filter of the catalog that carries the recommended
  tag.
\<close>

theorem recommended_ids:
  "\<forall>fid \<in> set (fst (getRecommendedFilterIdsByGroupId e gid w)).
      fid = SAFARI_FILTER_ID e \<or>
      (\<exists>r<length (filters w). filterId (filters w ! r) = fid \<and>
                              isRecommendedFilter e (filters w ! r))"
proof
  fix fid assume fid: "fid \<in> set (fst (getRecommendedFilterIdsByGroupId e gid w))"
  obtain fs cs w' where m: "getFiltersMetadata w = ((fs, cs), w')"
    by (metis prod.exhaust)
  note fr = getFiltersMetadata_frame [OF m]
  show "fid = SAFARI_FILTER_ID e \<or>
      (\<exists>r<length (filters w). filterId (filters w ! r) = fid \<and>
                              isRecommendedFilter e (filters w ! r))"
  proof (cases "firstCategory gid w' cs")
    case None
    then show ?thesis using fid m by (simp add: getRecommendedFilterIdsByGroupId_def)
  next
    case (Some c)
    then have c: "c < length (groups w)" using firstCategory_Some [OF Some] fr(3) by simp
    from fid m Some obtain r where r: "r \<in> set (filtersG (groups w' ! c))"
      "isOfferedFilter e (filters w' ! r) (getFilterIdsForLanguage e (getLocale e))
         (SAFARI_FILTER_ID e)"
      "fid = filterId (filters w' ! r)"
      by (auto simp: getRecommendedFilterIdsByGroupId_def)
    have rl: "r < length (filters w)" using fr(4) c r(1) by blast
    have co: "core (filters w' ! r) = core (filters w ! r)"
      using nth_map_core [OF fr(1) rl] .
    show ?thesis
    proof (cases "fid = SAFARI_FILTER_ID e")
      case True
      then show ?thesis by simp
    next
      case False
      then have "isRecommendedFilter e (filters w' ! r)"
        using r(2,3) by (auto simp: isOfferedFilter_def split: if_splits)
      then have "isRecommendedFilter e (filters w ! r)"
        using isRecommendedFilter_core [OF co] by simp
      moreover have "filterId (filters w ! r) = fid" using filterId_core [OF co] r(3) by simp
      ultimately show ?thesis using rl by blast
    qed
  qed
qed

text \<open>
  Witness for C5: group \<open>7\<close> with the platform filter \<open>12\<close> (no tag) and the filter
  \<open>3\<close> (recommended tag \<open>10\<close>): both are returned, the second for its tag.
\<close>

theorem recommended_ids_witness:
  "fst (getRecommendedFilterIdsByGroupId exampleEnv 7
          (mkWorld [mkFilter 12 7 [], mkFilter 3 7 [10]] [])) = [12, 3] \<and>
   (\<exists>r<length (filters (mkWorld [mkFilter 12 7 [], mkFilter 3 7 [10]] [])).
       filterId (filters (mkWorld [mkFilter 12 7 [], mkFilter 3 7 [10]] []) ! r) = 3 \<and>
       isRecommendedFilter exampleEnv
         (filters (mkWorld [mkFilter 12 7 [], mkFilter 3 7 [10]] []) ! r))"
proof -
  have v: "fst (getRecommendedFilterIdsByGroupId exampleEnv 7
          (mkWorld [mkFilter 12 7 [], mkFilter 3 7 [10]] [])) = [12, 3]"
    by code_simp
  have n: "3 \<noteq> SAFARI_FILTER_ID exampleEnv" by (simp add: exampleEnv_def)
  show ?thesis
    using v n recommended_ids [of exampleEnv 7 "mkWorld [mkFilter 12 7 [], mkFilter 3 7 [10]] []"]
    by auto
qed

text \<open>
  C6: the listing changes the keyword of the shared tag object in place, so a tag that
  two filters of the listing carry is stripped twice. With the keyword \<open>a:b:c\<close> on
  filters \<open>1\<close> and \<open>2\<close>, both filters display \<open>c\<close>, where the first colon-separated
  prefix removed leaves \<open>b:c\<close>.
\<close>

theorem getFilters_strips_shared_tag_twice:
  "(let w = mkWorld [mkFilter 1 7 [5], mkFilter 2 7 [5]] [\<lparr>tagId = 5, keyword = ''a:b:c''\<rparr>];
        (listing, w') = getFilters w
    in listing = [0, 1] \<and> displayedKeywords w' 0 = [''c''] \<and> displayedKeywords w' 1 = [''c''] \<and>
       substring ''a:b:c'' (indexOf ''a:b:c'' CHR '':'' + 1) = ''b:c'')"
  by code_simp

text \<open>
  The listing never returns a removed filter: every reference it returns is a filter of
  the catalog whose \<^verbatim>\<open>removed\<close> flag is not true, also in the world after the annotation.
\<close>

theorem getFilters_not_removed:
  "\<forall>r\<in>set (fst (getFilters w)).
      r < length (filters (snd (getFilters w))) \<and>
      \<not> truthy (removed (filters (snd (getFilters w)) ! r))"
proof
  fix r assume r: "r \<in> set (fst (getFilters w))"
  have c: "map core (filters (snd (getFilters w))) = map core (filters w)" by simp
  have rl: "r < length (filters w)" using getFilters_refs [OF r] .
  have nr: "\<not> truthy (removed (filters w ! r))" using r by (simp add: getFilters_def Let_def)
  have "core (filters (snd (getFilters w)) ! r) = core (filters w ! r)"
    using nth_map_core [OF c rl] .
  then have "removed (filters (snd (getFilters w)) ! r) = removed (filters w ! r)"
    by (metis core_fields(9))
  moreover have "r < length (filters (snd (getFilters w)))" using c rl by (metis length_map)
  ultimately show "r < length (filters (snd (getFilters w))) \<and>
      \<not> truthy (removed (filters (snd (getFilters w)) ! r))"
    using nr by simp
qed

text \<open>A catalog with the removed custom filter \<open>1000\<close> and the filter \<open>1\<close>: only \<open>1\<close> is listed.\<close>

theorem getFilters_not_removed_witness:
  "fst (getFilters (mkWorld [customFilter\<lparr>removed := Some True\<rparr>, mkFilter 1 7 []] [])) = [1] \<and>
   \<not> truthy (removed (filters (snd (getFilters
         (mkWorld [customFilter\<lparr>removed := Some True\<rparr>, mkFilter 1 7 []] []))) ! 1))"
proof -
  have v: "fst (getFilters (mkWorld [customFilter\<lparr>removed := Some True\<rparr>, mkFilter 1 7 []] [])) = [1]"
    by code_simp
  show ?thesis
    using v getFilters_not_removed
            [of "mkWorld [customFilter\<lparr>removed := Some True\<rparr>, mkFilter 1 7 []] []"]
    by simp
qed

section \<open>Properties of the filters manager\<close>

text \<open>
  C3: \<^verbatim>\<open>disableFilters\<close> walks the deduplicated ids from left to right. The ids before
  the first one that is not enabled (\<^verbatim>\<open>isFilterEnabled\<close>, read in the world of the call)
  get \<^verbatim>\<open>enabled = false\<close> and one \<^verbatim>\<open>FILTER_ENABLE_DISABLE\<close> event each, in order; these
  are all the events. The first id that is not enabled and every id after it keep their
  filter object and their entry of the state store as they were.
\<close>

theorem disableFilters_effect:
  "trace (disableFilters filterIds w) =
     trace w @ map (Notify FILTER_ENABLE_DISABLE)
                 (takeWhile (isFilterEnabled w) (removeDuplicates filterIds)) \<and>
   (\<forall>fid r. fid \<in> set (takeWhile (isFilterEnabled w) (removeDuplicates filterIds)) \<longrightarrow>
      getFilter w fid = Some r \<longrightarrow> enabled (filters (disableFilters filterIds w) ! r) = Some False) \<and>
   (\<forall>fid r. fid \<in> set (dropWhile (isFilterEnabled w) (removeDuplicates filterIds)) \<longrightarrow>
      getFilter w fid = Some r \<longrightarrow>
      filters (disableFilters filterIds w) ! r = filters w ! r \<and>
      filtersState (disableFilters filterIds w) fid = filtersState w fid)"
proof -
  let ?ids = "removeDuplicates filterIds"
  have "distinct (takeWhile (isFilterEnabled w) ?ids @ dropWhile (isFilterEnabled w) ?ids)"
    by simp
  then have dj: "fid \<in> set (dropWhile (isFilterEnabled w) ?ids) \<Longrightarrow>
                 fid \<notin> set (takeWhile (isFilterEnabled w) ?ids)" for fid
    unfolding distinct_append by blast
  note sp = disableLoop_spec [OF removeDuplicates_distinct, of filterIds w]
  show ?thesis
    unfolding disableFilters_def
  proof (intro conjI allI impI)
    show "trace (disableLoop ?ids w) =
            trace w @ map (Notify FILTER_ENABLE_DISABLE) (takeWhile (isFilterEnabled w) ?ids)"
      using sp by simp
  next
    fix fid r
    assume "fid \<in> set (takeWhile (isFilterEnabled w) ?ids)" "getFilter w fid = Some r"
    then show "enabled (filters (disableLoop ?ids w) ! r) = Some False"
      using sp by metis
  next
    fix fid r
    assume a: "fid \<in> set (dropWhile (isFilterEnabled w) ?ids)" "getFilter w fid = Some r"
    show "filters (disableLoop ?ids w) ! r = filters w ! r"
      using sp dj [OF a(1)] a(2) by metis
    show "filtersState (disableLoop ?ids w) fid = filtersState w fid"
      using sp dj [OF a(1)] a(2) by metis
  qed
qed

text \<open>
  Witness for C3: \<^verbatim>\<open>disableFilters([1, 2, 1, 3])\<close> where \<open>1\<close> and \<open>3\<close> are enabled and
  \<open>2\<close> is not: \<open>1\<close> is disabled with one event, and \<open>3\<close> is not touched.
\<close>

theorem disableFilters_effect_witness:
  "takeWhile (isFilterEnabled threeFilters) (removeDuplicates [1, 2, 1, 3]) = [1] \<and>
   dropWhile (isFilterEnabled threeFilters) (removeDuplicates [1, 2, 1, 3]) = [2, 3] \<and>
   getFilter threeFilters 1 = Some 0 \<and> getFilter threeFilters 3 = Some 2 \<and>
   trace (disableFilters [1, 2, 1, 3] threeFilters) = [Notify FILTER_ENABLE_DISABLE 1] \<and>
   enabled (filters (disableFilters [1, 2, 1, 3] threeFilters) ! 0) = Some False \<and>
   filters (disableFilters [1, 2, 1, 3] threeFilters) ! 2 = mkFilter 3 7 [] \<and>
   filtersState (disableFilters [1, 2, 1, 3] threeFilters) 3 = Some stateOn"
proof -
  have tw: "takeWhile (isFilterEnabled threeFilters) (removeDuplicates [1, 2, 1, 3]) = [1]"
    and dw: "dropWhile (isFilterEnabled threeFilters) (removeDuplicates [1, 2, 1, 3]) = [2, 3]"
    and g: "getFilter threeFilters 1 = Some 0" "getFilter threeFilters 3 = Some 2"
    by (simp_all add: threeFilters_def mkWorld_def mkFilter_def isFilterEnabled_def
          getFilter_def stateOn_def truthy_def)
  have v: "trace threeFilters = []" "filters threeFilters ! 2 = mkFilter 3 7 []"
    "filtersState threeFilters 3 = Some stateOn"
    by (simp_all add: threeFilters_def mkWorld_def)
  note th = disableFilters_effect [of "[1, 2, 1, 3]" threeFilters, unfolded tw dw]
  have t: "trace (disableFilters [1, 2, 1, 3] threeFilters) = [Notify FILTER_ENABLE_DISABLE 1]"
    using th v(1) by simp
  have a: "enabled (filters (disableFilters [1, 2, 1, 3] threeFilters) ! 0) = Some False"
    using th g(1) by simp
  have b: "filters (disableFilters [1, 2, 1, 3] threeFilters) ! 2 = mkFilter 3 7 []"
    "filtersState (disableFilters [1, 2, 1, 3] threeFilters) 3 = Some stateOn"
    using th g(2) v(2,3) by simp_all
  show ?thesis using tw dw g t a b by simp
qed

text \<open>
  C7: \<^verbatim>\<open>removeFilter\<close> changes nothing and emits nothing when the filter is absent,
  already removed, or has no (non-empty) \<^verbatim>\<open>customUrl\<close>; otherwise it sets
  \<^verbatim>\<open>enabled = false\<close>, \<^verbatim>\<open>installed = false\<close>, \<^verbatim>\<open>removed = true\<close> and emits
  \<^verbatim>\<open>FILTER_ENABLE_DISABLE\<close> and then \<^verbatim>\<open>FILTER_ADD_REMOVE\<close> for the filter.
\<close>

theorem removeFilter_effect:
  "((getFilter w fid = None \<or>
     (\<exists>r. getFilter w fid = Some r \<and>
          (truthy (removed (filters w ! r)) \<or> \<not> hasCustomUrl (filters w ! r))))
    \<longrightarrow> removeFilter fid w = w) \<and>
   (\<forall>r. getFilter w fid = Some r \<and> \<not> truthy (removed (filters w ! r)) \<and>
        hasCustomUrl (filters w ! r)
    \<longrightarrow> enabled (filters (removeFilter fid w) ! r) = Some False \<and>
        installed (filters (removeFilter fid w) ! r) = Some False \<and>
        removed (filters (removeFilter fid w) ! r) = Some True \<and>
        trace (removeFilter fid w) =
          trace w @ [Notify FILTER_ENABLE_DISABLE fid, Notify FILTER_ADD_REMOVE fid])"
  using removeFilter_rejected [of w fid] removeFilter_done [of w fid] by blast

text \<open>
  Witness for C7: the custom filter \<open>1000\<close> is removed with both events; the filter
  \<open>1\<close>, which has no \<^verbatim>\<open>customUrl\<close>, is left as it is.
\<close>

theorem removeFilter_effect_witness:
  "getFilter (mkWorld [mkFilter 1 7 [], customFilter] []) 1000 = Some 1 \<and>
   hasCustomUrl (filters (mkWorld [mkFilter 1 7 [], customFilter] []) ! 1) \<and>
   removed (filters (removeFilter 1000 (mkWorld [mkFilter 1 7 [], customFilter] [])) ! 1) = Some True \<and>
   enabled (filters (removeFilter 1000 (mkWorld [mkFilter 1 7 [], customFilter] [])) ! 1) = Some False \<and>
   installed (filters (removeFilter 1000 (mkWorld [mkFilter 1 7 [], customFilter] [])) ! 1) = Some False \<and>
   trace (removeFilter 1000 (mkWorld [mkFilter 1 7 [], customFilter] [])) =
     [Notify FILTER_ENABLE_DISABLE 1000, Notify FILTER_ADD_REMOVE 1000] \<and>
   getFilter (mkWorld [mkFilter 1 7 [], customFilter] []) 1 = Some 0 \<and>
   removeFilter 1 (mkWorld [mkFilter 1 7 [], customFilter] []) =
     mkWorld [mkFilter 1 7 [], customFilter] []"
proof -
  let ?w = "mkWorld [mkFilter 1 7 [], customFilter] []"
  have g: "getFilter ?w 1000 = Some 1" "getFilter ?w 1 = Some 0"
    by (simp_all add: getFilter_def mkWorld_def mkFilter_def customFilter_def)
  have c: "hasCustomUrl (filters ?w ! 1)" "\<not> truthy (removed (filters ?w ! 1))"
    "\<not> hasCustomUrl (filters ?w ! 0)" "trace ?w = []"
    by (simp_all add: hasCustomUrl_def truthy_def mkWorld_def mkFilter_def customFilter_def)
  show ?thesis
    using removeFilter_effect [of ?w 1000] removeFilter_effect [of ?w 1] g c by simp
qed

text \<open>
  C8, as stated, fails for a filter that the state store already holds as enabled: the
  first call is a no-op too, and the two calls emit no event at all.
\<close>

theorem enableFilter_twice_counterexample:
  "getFilter threeFilters 1 = Some 0 \<and> isFilterEnabled threeFilters 1 \<and>
   trace (worldOf (enableFilter 1 (worldOf (enableFilter 1 threeFilters)))) = trace threeFilters"
proof -
  have "getFilter threeFilters 1 = Some 0" "isFilterEnabled threeFilters 1"
    by (simp_all add: threeFilters_def mkWorld_def mkFilter_def isFilterEnabled_def
          getFilter_def stateOn_def truthy_def)
  then show ?thesis by (simp add: enableFilter_enabled)
qed

text \<open>
  C8, amended: for a filter of the catalog that the state store does not hold as enabled,
  the first \<^verbatim>\<open>enableFilter\<close> sets \<^verbatim>\<open>enabled = true\<close> and emits exactly one
  \<^verbatim>\<open>FILTER_ENABLE_DISABLE\<close> event; the second call, right after it, changes nothing and
  emits nothing.
\<close>

theorem enableFilter_twice:
  "getFilter w fid = Some r \<Longrightarrow> \<not> isFilterEnabled w fid \<Longrightarrow>
   (\<exists>w1. enableFilter fid w = Normal w1 \<and> enabled (filters w1 ! r) = Some True \<and>
         filter (isNotify FILTER_ENABLE_DISABLE) (trace w1) =
           filter (isNotify FILTER_ENABLE_DISABLE) (trace w) @ [Notify FILTER_ENABLE_DISABLE fid] \<and>
         enableFilter fid w1 = Normal w1)"
  using enableFilter_fresh [of w fid r] enableFilter_enabled by blast

text \<open>Witness for C8: filter \<open>2\<close> of the example, which the store does not hold.\<close>

theorem enableFilter_twice_witness:
  "getFilter threeFilters 2 = Some 1 \<and> \<not> isFilterEnabled threeFilters 2 \<and>
   (\<exists>w1. enableFilter 2 threeFilters = Normal w1 \<and> enabled (filters w1 ! 1) = Some True \<and>
         filter (isNotify FILTER_ENABLE_DISABLE) (trace w1) = [Notify FILTER_ENABLE_DISABLE 2] \<and>
         enableFilter 2 w1 = Normal w1)"
proof -
  have g: "getFilter threeFilters 2 = Some 1" and n: "\<not> isFilterEnabled threeFilters 2"
    and t: "trace threeFilters = []"
    by (simp_all add: threeFilters_def mkWorld_def mkFilter_def isFilterEnabled_def
          getFilter_def)
  show ?thesis using enableFilter_twice [OF g n] g n t by simp
qed

text \<open>
  C9: \<^verbatim>\<open>loadCustomFilter\<close> with a falsy url calls the error callback at once and nothing
  else (no success callback, no registration, no exception); with any other url it hands
  the url to the registration and calls no callback itself. When the registration yields
  the id of a filter of the catalog, the filter's \<^verbatim>\<open>removed\<close> flag is deleted and the
  success callback is called with that filter; when it yields no id (\<^verbatim>\<open>undefined\<close>, or
  the falsy id \<open>0\<close>), the error callback is called.
\<close>

theorem loadCustomFilter_callbacks:
  "(urlFalsy url \<longrightarrow> loadCustomFilter url w = w\<lparr>trace := trace w @ [ErrorCallback]\<rparr>) \<and>
   (\<forall>u. url = Some u \<and> u \<noteq> [] \<longrightarrow>
      loadCustomFilter url w = w\<lparr>trace := trace w @ [RegistrationRequested u]\<rparr>) \<and>
   (\<forall>fid r. fid \<noteq> 0 \<and> getFilter w fid = Some r \<longrightarrow>
      (\<exists>w'. updateCustomFilterCallback (Some fid) w = Normal w' \<and>
            removed (filters w' ! r) = None \<and>
            trace w' = trace w @ [SuccessCallback r])) \<and>
   updateCustomFilterCallback None w = Normal (w\<lparr>trace := trace w @ [ErrorCallback]\<rparr>) \<and>
   updateCustomFilterCallback (Some 0) w = Normal (w\<lparr>trace := trace w @ [ErrorCallback]\<rparr>)"
proof (intro conjI allI impI)
  show "loadCustomFilter url w = w\<lparr>trace := trace w @ [ErrorCallback]\<rparr>" if "urlFalsy url"
    using that by (simp add: loadCustomFilter_def)
  show "loadCustomFilter url w = w\<lparr>trace := trace w @ [RegistrationRequested u]\<rparr>"
    if "url = Some u \<and> u \<noteq> []" for u
    using that by (simp add: loadCustomFilter_def urlFalsy_def)
  show "updateCustomFilterCallback None w = Normal (w\<lparr>trace := trace w @ [ErrorCallback]\<rparr>)"
    by (simp add: updateCustomFilterCallback_def)
  show "updateCustomFilterCallback (Some 0) w = Normal (w\<lparr>trace := trace w @ [ErrorCallback]\<rparr>)"
    by (simp add: updateCustomFilterCallback_def)
  fix fid r assume a: "fid \<noteq> 0 \<and> getFilter w fid = Some r"
  then have "r < length (filters w)" using getFilter_Some by blast
  then show "\<exists>w'. updateCustomFilterCallback (Some fid) w = Normal w' \<and>
            removed (filters w' ! r) = None \<and>
            trace w' = trace w @ [SuccessCallback r]"
    using a by (simp add: updateCustomFilterCallback_def Let_def)
qed

text \<open>
  Witness for C9: no url, and the registration of a custom filter that had been removed.
\<close>

theorem loadCustomFilter_callbacks_witness:
  "urlFalsy None \<and>
   trace (loadCustomFilter None (mkWorld [customFilter\<lparr>removed := Some True\<rparr>] [])) = [ErrorCallback] \<and>
   getFilter (mkWorld [customFilter\<lparr>removed := Some True\<rparr>] []) 1000 = Some 0 \<and>
   (\<exists>w'. updateCustomFilterCallback (Some 1000) (mkWorld [customFilter\<lparr>removed := Some True\<rparr>] [])
            = Normal w' \<and>
         removed (filters w' ! 0) = None \<and> trace w' = [SuccessCallback 0])"
proof -
  let ?w = "mkWorld [customFilter\<lparr>removed := Some True\<rparr>] []"
  have u: "urlFalsy None" by (simp add: urlFalsy_def)
  have g: "getFilter ?w 1000 = Some 0" and t: "trace ?w = []"
    by (simp_all add: getFilter_def mkWorld_def mkFilter_def customFilter_def)
  show ?thesis
    using loadCustomFilter_callbacks [of None ?w] u g t by simp
qed

section \<open>Properties of the sequential load pipeline\<close>

text \<open>
  C1: for a batch whose ids are all in the catalog, started in any world (loads of
  earlier calls may be in flight). The call starts at most one load, for an id of the
  deduplicated list, which keeps the ids after it. Whenever the loader answers a load,
  with any result, that load leaves the loads in flight and at most one load starts, for
  one of the ids the answered load had kept: the next load of a batch begins only in the
  callback that completes its previous load. So, whatever the loader answers and in
  whatever order, the loads in flight never exceed those from before the call by more
  than one. When the loader answers the loads of the batch (\<open>ok\<close> gives its result per
  id; they are at the position after the loads from before the call, which stay in
  flight; \<open>n\<close> answers are enough when \<open>n\<close> is the length of the deduplicated list), the
  batch ends normally in the world that processing the ids one after the other gives,
  each cycle complete before the next id starts; the loader has been called for exactly
  the ids that were neither installed nor loaded, in list order, each call answered
  before the next; an id whose load failed keeps its filter object (so its \<^verbatim>\<open>enabled\<close>
  flag) and its store entry as they were, and every other id of the list, also after a
  failure, ends installed and enabled.
\<close>

theorem addAndEnableFilters_sequential:
  "\<forall>fid\<in>set filterIds. getFilter w fid \<noteq> None \<Longrightarrow>
   (\<exists>new. inflight (worldOf (addAndEnableFilters filterIds w)) = inflight w @ new \<and>
          nextLoadOf (removeDuplicates filterIds) new) \<and>
   (\<forall>v i b r fid rest. i < length (inflight v) \<and> inflight v ! i = Pending r fid rest \<longrightarrow>
      (\<exists>new. inflight (worldOf (loadFilterRulesCallback i b v)) =
               take i (inflight v) @ drop (Suc i) (inflight v) @ new \<and>
             nextLoadOf rest new)) \<and>
   (\<forall>ds. length (inflight (afterCallbacks ds (worldOf (addAndEnableFilters filterIds w)))) \<le>
         Suc (length (inflight w))) \<and>
   (\<forall>ok n. length (removeDuplicates filterIds) \<le> n \<longrightarrow>
      (\<exists>w'. settle (length (inflight w)) ok n (addAndEnableFilters filterIds w) = Normal w' \<and>
            sequentially ok (removeDuplicates filterIds) w = Normal w' \<and>
            inflight w' = inflight w \<and>
            filter isLoad (trace w') =
              filter isLoad (trace w) @ loaderCalls ok w (removeDuplicates filterIds) \<and>
            (\<forall>fid r. fid \<in> set filterIds \<longrightarrow> getFilter w fid = Some r \<longrightarrow>
               (if needsLoad w r \<and> \<not> ok fid
                then filters w' ! r = filters w ! r \<and> filtersState w' fid = filtersState w fid
                else isFilterEnabled w' fid \<and> truthy (installed (filters w' ! r))))))"
proof -
  assume pres: "\<forall>fid\<in>set filterIds. getFilter w fid \<noteq> None"
  have a: "\<exists>new. inflight (worldOf (addAndEnableFilters filterIds w)) = inflight w @ new \<and>
          nextLoadOf (removeDuplicates filterIds) new"
    by (rule addAndEnableFilters_inflight)
  have b: "\<forall>v i b r fid rest. i < length (inflight v) \<and> inflight v ! i = Pending r fid rest \<longrightarrow>
      (\<exists>new. inflight (worldOf (loadFilterRulesCallback i b v)) =
               take i (inflight v) @ drop (Suc i) (inflight v) @ new \<and>
             nextLoadOf rest new)"
    using loadFilterRulesCallback_answer by blast
  have c: "\<forall>ds. length (inflight (afterCallbacks ds (worldOf (addAndEnableFilters filterIds w)))) \<le>
         Suc (length (inflight w))"
    using one_at_a_time by blast
  have d: "\<exists>w'. settle (length (inflight w)) ok n (addAndEnableFilters filterIds w) = Normal w' \<and>
            sequentially ok (removeDuplicates filterIds) w = Normal w' \<and>
            inflight w' = inflight w \<and>
            filter isLoad (trace w') =
              filter isLoad (trace w) @ loaderCalls ok w (removeDuplicates filterIds) \<and>
            (\<forall>fid r. fid \<in> set filterIds \<longrightarrow> getFilter w fid = Some r \<longrightarrow>
               (if needsLoad w r \<and> \<not> ok fid
                then filters w' ! r = filters w ! r \<and> filtersState w' fid = filtersState w fid
                else isFilterEnabled w' fid \<and> truthy (installed (filters w' ! r))))"
    if n: "length (removeDuplicates filterIds) \<le> n" for ok n
  proof -
    have p: "\<forall>x\<in>set (removeDuplicates filterIds). getFilter w x \<noteq> None" using pres by simp
    from sequentially_props [OF removeDuplicates_distinct p, of ok] obtain w' where sp:
      "sequentially ok (removeDuplicates filterIds) w = Normal w' \<and> inflight w' = inflight w \<and>
          (\<forall>y. getFilter w' y = getFilter w y) \<and>
          filter isLoad (trace w') =
            filter isLoad (trace w) @ loaderCalls ok w (removeDuplicates filterIds) \<and>
          (\<forall>y r. y \<notin> set (removeDuplicates filterIds) \<longrightarrow> getFilter w y = Some r \<longrightarrow>
             filters w' ! r = filters w ! r \<and> filtersState w' y = filtersState w y) \<and>
          (\<forall>x r. x \<in> set (removeDuplicates filterIds) \<longrightarrow> getFilter w x = Some r \<longrightarrow>
             (if needsLoad w r \<and> \<not> ok x
              then filters w' ! r = filters w ! r \<and> filtersState w' x = filtersState w x
              else isFilterEnabled w' x \<and> truthy (installed (filters w' ! r))))" ..
    have s: "settle (length (inflight w)) ok n (addAndEnableFilters filterIds w) = Normal w'"
      using settle_refines [OF n, of w ok] sp by (simp add: addAndEnableFilters_eq)
    show ?thesis using s sp by (intro exI [of _ w']) simp
  qed
  show ?thesis using a b c d by blast
qed

text \<open>
  Witness for C1: \<^verbatim>\<open>addAndEnableFilters([1, 2, 1])\<close> while the load of an earlier
  \<^verbatim>\<open>addAndEnableFilters([2])\<close> is in flight; the load of \<open>1\<close> fails and the load of
  \<open>2\<close> that this batch starts succeeds.
\<close>

theorem addAndEnableFilters_sequential_witness:
  "inflight busyWorld = [Pending 1 2 []] \<and>
   getFilter busyWorld 1 = Some 0 \<and> getFilter busyWorld 2 = Some 1 \<and> needsLoad busyWorld 0 \<and>
   inflight (worldOf (addAndEnableFilters [1, 2, 1] busyWorld)) =
     [Pending 1 2 [], Pending 0 1 [2]] \<and>
   (\<exists>new. inflight (worldOf (loadFilterRulesCallback 1 False
                               (worldOf (addAndEnableFilters [1, 2, 1] busyWorld)))) =
            Pending 1 2 [] # new \<and>
          nextLoadOf [2] new) \<and>
   length (inflight (afterCallbacks [(1, False)]
                       (worldOf (addAndEnableFilters [1, 2, 1] busyWorld)))) \<le> 2 \<and>
   (\<exists>w'. settle 1 (\<lambda>fid. fid = 2) 2 (addAndEnableFilters [1, 2, 1] busyWorld) = Normal w' \<and>
         inflight w' = [Pending 1 2 []] \<and>
         filter isLoad (trace w') =
           [LoadRequested 2, LoadRequested 1, LoadFinished 1 False,
            LoadRequested 2, LoadFinished 2 True] \<and>
         filters w' ! 0 = mkFilter 1 7 [] \<and> isFilterEnabled w' 2)"
proof -
  have busy: "inflight busyWorld = [Pending 1 2 []]" by code_simp
  have g: "getFilter busyWorld 1 = Some 0" "getFilter busyWorld 2 = Some 1" by code_simp+
  have pres: "\<forall>fid\<in>set [1, 2, 1]. getFilter busyWorld fid \<noteq> None" using g by simp
  have nl: "needsLoad busyWorld 0" "needsLoad busyWorld 1" by code_simp+
  have v: "filter isLoad (trace busyWorld) = [LoadRequested 2]"
    "filters busyWorld ! 0 = mkFilter 1 7 []" by code_simp+
  have lc: "loaderCalls (\<lambda>fid. fid = 2) busyWorld (removeDuplicates [1, 2, 1]) =
              [LoadRequested 1, LoadFinished 1 False, LoadRequested 2, LoadFinished 2 True]"
    using g nl by (simp add: loaderCalls_def requiresLoader_def)
  note th = addAndEnableFilters_sequential [OF pres]
  have iv: "inflight (worldOf (addAndEnableFilters [1, 2, 1] busyWorld)) =
              [Pending 1 2 [], Pending 0 1 [2]]" by code_simp
  have "i < length (inflight v) \<and> inflight v ! i = Pending r fid rest \<longrightarrow>
      (\<exists>new. inflight (worldOf (loadFilterRulesCallback i b v)) =
               take i (inflight v) @ drop (Suc i) (inflight v) @ new \<and>
             nextLoadOf rest new)" for v i b r fid rest
    using th by blast
  from this [where v = "worldOf (addAndEnableFilters [1, 2, 1] busyWorld)" and i = 1
      and r = 0 and fid = 1 and rest = "[2]" and b = False]
  have cb: "\<exists>new. inflight (worldOf (loadFilterRulesCallback 1 False
                               (worldOf (addAndEnableFilters [1, 2, 1] busyWorld)))) =
            Pending 1 2 [] # new \<and>
          nextLoadOf [2] new"
    using iv by simp
  have one: "length (inflight (afterCallbacks [(1, False)]
                       (worldOf (addAndEnableFilters [1, 2, 1] busyWorld)))) \<le> 2"
    using th busy by (metis One_nat_def Suc_1 length_Cons list.size(3))
  have "length (removeDuplicates [1, 2, 1 :: int]) \<le> 2" by simp
  with th obtain w' where w':
    "settle (length (inflight busyWorld)) (\<lambda>fid. fid = 2) 2
       (addAndEnableFilters [1, 2, 1] busyWorld) = Normal w'"
    "inflight w' = inflight busyWorld"
    "filter isLoad (trace w') = filter isLoad (trace busyWorld) @
        loaderCalls (\<lambda>fid. fid = 2) busyWorld (removeDuplicates [1, 2, 1])"
    "\<forall>fid r. fid \<in> set [1, 2, 1] \<longrightarrow> getFilter busyWorld fid = Some r \<longrightarrow>
       (if needsLoad busyWorld r \<and> \<not> fid = 2
        then filters w' ! r = filters busyWorld ! r \<and>
             filtersState w' fid = filtersState busyWorld fid
        else isFilterEnabled w' fid \<and> truthy (installed (filters w' ! r)))"
    by blast
  have a: "filters w' ! 0 = mkFilter 1 7 []" using w'(4) g(1) nl(1) v(2) by simp
  have b: "isFilterEnabled w' 2" using w'(4) g(2) by simp
  have s: "settle 1 (\<lambda>fid. fid = 2) 2 (addAndEnableFilters [1, 2, 1] busyWorld) = Normal w'"
    using w'(1) busy by simp
  show ?thesis using busy g nl(1) iv cb one s w'(2,3) lc v(1) a b by simp
qed

text \<open>
  C10, as stated, fails when an earlier id of the batch needs the external loader: the
  call of \<^verbatim>\<open>addAndEnableFilters\<close> returns normally with that load in flight, and the
  exception is thrown later, inside the loader's callback.
\<close>

theorem addAndEnableFilters_missing_counterexample:
  "getFilter gapWorld 2 = None \<and>
   thrown (addAndEnableFilters [1, 2, 3] gapWorld) = None \<and>
   inflight (worldOf (addAndEnableFilters [1, 2, 3] gapWorld)) = [Pending 0 1 [2, 3]] \<and>
   thrown (loadFilterRulesCallback 0 True (worldOf (addAndEnableFilters [1, 2, 3] gapWorld))) =
     Some (FilterNotFound 2)"
  by code_simp

text \<open>
  C10, amended: when an id \<open>m\<close> of the deduplicated list is not in the catalog (and the
  ids \<open>pre\<close> before it are), in any world: once the loader has answered the loads of
  the batch, the batch has processed \<open>pre\<close> as usual and ended with the exception of
  the lookup of \<open>m\<close>, thrown in the step that reaches \<open>m\<close>: the loader has been called
  for ids of \<open>pre\<close> only, and the ids \<open>post\<close> after \<open>m\<close> keep their filter objects and
  store entries. When no id of \<open>pre\<close> needs the loader, that step is the call of
  \<^verbatim>\<open>addAndEnableFilters\<close> itself, which throws. When an id of \<open>pre\<close> needs the loader,
  the call returns normally with the load of the first such id in flight, which keeps
  \<open>m\<close> among the ids still to come: the exception is thrown later, in the loader's
  callback.
\<close>

theorem addAndEnableFilters_missing:
  "removeDuplicates filterIds = pre @ m # post \<Longrightarrow>
   getFilter w m = None \<Longrightarrow> \<forall>fid\<in>set pre. getFilter w fid \<noteq> None \<Longrightarrow>
   (\<forall>ok n. length (removeDuplicates filterIds) \<le> n \<longrightarrow>
      (\<exists>w'. settle (length (inflight w)) ok n (addAndEnableFilters filterIds w) =
              Throws (FilterNotFound m) w' \<and>
            sequentially ok pre w = Normal w' \<and>
            inflight w' = inflight w \<and>
            filter isLoad (trace w') = filter isLoad (trace w) @ loaderCalls ok w pre \<and>
            (\<forall>fid r. fid \<in> set post \<longrightarrow> getFilter w fid = Some r \<longrightarrow>
               filters w' ! r = filters w ! r \<and> filtersState w' fid = filtersState w fid))) \<and>
   ((\<forall>fid\<in>set pre. \<not> requiresLoader w fid) \<longrightarrow>
      thrown (addAndEnableFilters filterIds w) = Some (FilterNotFound m)) \<and>
   ((\<exists>fid\<in>set pre. requiresLoader w fid) \<longrightarrow>
      thrown (addAndEnableFilters filterIds w) = None \<and>
      (\<exists>p1 fid p2 r. pre = p1 @ fid # p2 \<and> (\<forall>y\<in>set p1. \<not> requiresLoader w y) \<and>
         requiresLoader w fid \<and> getFilter w fid = Some r \<and>
         inflight (worldOf (addAndEnableFilters filterIds w)) =
           inflight w @ [Pending r fid (p2 @ m # post)]))"
proof -
  assume split: "removeDuplicates filterIds = pre @ m # post"
    and miss: "getFilter w m = None" and pres: "\<forall>fid\<in>set pre. getFilter w fid \<noteq> None"
  have "distinct (pre @ m # post)" using removeDuplicates_distinct [of filterIds] split by simp
  then have d: "distinct pre" "set post \<inter> set pre = {}" "m \<notin> set pre" by auto
  have sq: "\<exists>w'. sequentially ok (pre @ m # post) w = Throws (FilterNotFound m) w' \<and>
            getFilter w' m = None \<and>
            sequentially ok pre w = Normal w' \<and>
            inflight w' = inflight w \<and>
            filter isLoad (trace w') = filter isLoad (trace w) @ loaderCalls ok w pre \<and>
            (\<forall>fid r. fid \<in> set post \<longrightarrow> getFilter w fid = Some r \<longrightarrow>
               filters w' ! r = filters w ! r \<and> filtersState w' fid = filtersState w fid)" for ok
  proof -
    from sequentially_props [OF d(1) pres, of ok] obtain w' where sp:
      "sequentially ok pre w = Normal w' \<and> inflight w' = inflight w \<and>
        (\<forall>y. getFilter w' y = getFilter w y) \<and>
        filter isLoad (trace w') = filter isLoad (trace w) @ loaderCalls ok w pre \<and>
        (\<forall>y r. y \<notin> set pre \<longrightarrow> getFilter w y = Some r \<longrightarrow>
           filters w' ! r = filters w ! r \<and> filtersState w' y = filtersState w y) \<and>
        (\<forall>x r. x \<in> set pre \<longrightarrow> getFilter w x = Some r \<longrightarrow>
           (if needsLoad w r \<and> \<not> ok x
            then filters w' ! r = filters w ! r \<and> filtersState w' x = filtersState w x
            else isFilterEnabled w' x \<and> truthy (installed (filters w' ! r))))" ..
    have gm: "getFilter w' m = None" using sp miss by simp
    then have t: "sequentially ok (pre @ m # post) w = Throws (FilterNotFound m) w'"
      using sp by (simp add: sequentially_append)
    have "filters w' ! r = filters w ! r \<and> filtersState w' fid = filtersState w fid"
      if "fid \<in> set post" "getFilter w fid = Some r" for fid r
    proof -
      have "fid \<notin> set pre" using that(1) d(2) by auto
      then show ?thesis using sp that(2) by simp
    qed
    then show ?thesis using t gm sp by (intro exI [of _ w']) simp
  qed
  show ?thesis
  proof (intro conjI allI impI)
    fix ok n assume n: "length (removeDuplicates filterIds) \<le> n"
    have "settle (length (inflight w)) ok n (addAndEnableFilters filterIds w) =
          sequentially ok (pre @ m # post) w"
      using settle_refines [OF n, of w ok] split by (simp add: addAndEnableFilters_eq)
    then show "\<exists>w'. settle (length (inflight w)) ok n (addAndEnableFilters filterIds w) =
              Throws (FilterNotFound m) w' \<and>
            sequentially ok pre w = Normal w' \<and>
            inflight w' = inflight w \<and>
            filter isLoad (trace w') = filter isLoad (trace w) @ loaderCalls ok w pre \<and>
            (\<forall>fid r. fid \<in> set post \<longrightarrow> getFilter w fid = Some r \<longrightarrow>
               filters w' ! r = filters w ! r \<and> filtersState w' fid = filtersState w fid)"
      using sq [of ok] by auto
  next
    assume nl: "\<forall>fid\<in>set pre. \<not> requiresLoader w fid"
    obtain w' where w': "sequentially (\<lambda>_. True) pre w = Normal w'"
      "getFilter w' m = None"
      using sq [of "\<lambda>_. True"] by blast
    then have "loadNextFilter (m # post) w' = Throws (FilterNotFound m) w'"
      by (simp add: addAntiBannerFilter_def getFilterById_def)
    then have "loadNextFilter (pre @ m # post) w = Throws (FilterNotFound m) w'"
      using loadNextFilter_no_loader [OF d(1) nl pres, of "m # post" "\<lambda>_. True"] w'(1) by simp
    then show "thrown (addAndEnableFilters filterIds w) = Some (FilterNotFound m)"
      using split by (simp add: addAndEnableFilters_eq)
  next
    assume rl: "\<exists>fid\<in>set pre. requiresLoader w fid"
    note df = loadNextFilter_defers [OF d(1) pres rl, of "m # post"]
    show "thrown (addAndEnableFilters filterIds w) = None"
      using df split by (auto simp: addAndEnableFilters_eq)
    show "\<exists>p1 fid p2 r. pre = p1 @ fid # p2 \<and> (\<forall>y\<in>set p1. \<not> requiresLoader w y) \<and>
         requiresLoader w fid \<and> getFilter w fid = Some r \<and>
         inflight (worldOf (addAndEnableFilters filterIds w)) =
           inflight w @ [Pending r fid (p2 @ m # post)]"
      using df split unfolding addAndEnableFilters_eq by metis
  qed
qed

text \<open>
  Witness for C10: \<^verbatim>\<open>addAndEnableFilters([1, 2, 3])\<close> without a filter \<open>2\<close>, once with
  filter \<open>1\<close> to be loaded and once with filter \<open>1\<close> installed.
\<close>

theorem addAndEnableFilters_missing_witness:
  "removeDuplicates [1, 2, 3 :: int] = [1] @ 2 # [3] \<and>
   getFilter gapWorld 2 = None \<and> getFilter gapWorld 1 = Some 0 \<and> getFilter gapWorld 3 = Some 1 \<and>
   (\<exists>w'. settle 0 (\<lambda>fid. True) 3 (addAndEnableFilters [1, 2, 3] gapWorld) =
           Throws (FilterNotFound 2) w' \<and>
         filter isLoad (trace w') = [LoadRequested 1, LoadFinished 1 True] \<and>
         filters w' ! 1 = mkFilter 3 7 [] \<and> filtersState w' 3 = None) \<and>
   requiresLoader gapWorld 1 \<and> thrown (addAndEnableFilters [1, 2, 3] gapWorld) = None \<and>
   (\<exists>p1 fid p2 r. [1] = p1 @ fid # p2 \<and>
      inflight (worldOf (addAndEnableFilters [1, 2, 3] gapWorld)) =
        [Pending r fid (p2 @ [2, 3])]) \<and>
   getFilter gapWorldInstalled 2 = None \<and> getFilter gapWorldInstalled 1 = Some 0 \<and>
   \<not> requiresLoader gapWorldInstalled 1 \<and>
   thrown (addAndEnableFilters [1, 2, 3] gapWorldInstalled) = Some (FilterNotFound 2)"
proof -
  have idle: "inflight gapWorld = []"
    by (simp add: gapWorld_def mkWorld_def)
  have sp: "removeDuplicates [1, 2, 3 :: int] = [1] @ 2 # [3]" by simp
  have g: "getFilter gapWorld 1 = Some 0" "getFilter gapWorld 2 = None"
    "getFilter gapWorld 3 = Some 1"
    by (simp_all add: gapWorld_def mkWorld_def mkFilter_def getFilter_def)
  have gi: "getFilter gapWorldInstalled 1 = Some 0" "getFilter gapWorldInstalled 2 = None"
    by (simp_all add: gapWorldInstalled_def mkWorld_def mkFilter_def getFilter_def)
  have nl: "needsLoad gapWorld 0" "\<not> needsLoad gapWorldInstalled 0"
    by (simp_all add: gapWorld_def gapWorldInstalled_def mkWorld_def mkFilter_def needsLoad_def
          truthy_def)
  have v: "filter isLoad (trace gapWorld) = []" "filters gapWorld ! 1 = mkFilter 3 7 []"
    "filtersState gapWorld 3 = None"
    by (simp_all add: gapWorld_def mkWorld_def)
  have lc: "loaderCalls (\<lambda>fid. True) gapWorld [1] = [LoadRequested 1, LoadFinished 1 True]"
    using g nl by (simp add: loaderCalls_def requiresLoader_def)
  have pres: "\<forall>fid\<in>set [1]. getFilter gapWorld fid \<noteq> None"
    "\<forall>fid\<in>set [1]. getFilter gapWorldInstalled fid \<noteq> None" using g gi by simp_all
  note th = addAndEnableFilters_missing [OF sp g(2) pres(1)]
  note thi = addAndEnableFilters_missing [OF sp gi(2) pres(2)]
  have "length (removeDuplicates [1, 2, 3 :: int]) \<le> 3" by simp
  with th obtain w' where w':
    "settle (length (inflight gapWorld)) (\<lambda>fid. True) 3 (addAndEnableFilters [1, 2, 3] gapWorld) =
       Throws (FilterNotFound 2) w'"
    "filter isLoad (trace w') = filter isLoad (trace gapWorld) @ loaderCalls (\<lambda>fid. True) gapWorld [1]"
    "\<forall>fid r. fid \<in> set [3] \<longrightarrow> getFilter gapWorld fid = Some r \<longrightarrow>
       filters w' ! r = filters gapWorld ! r \<and> filtersState w' fid = filtersState gapWorld fid"
    by blast
  have a: "filters w' ! 1 = mkFilter 3 7 []" "filtersState w' 3 = None"
    using w'(3) g(3) v(2,3) by simp_all
  have s: "settle 0 (\<lambda>fid. True) 3 (addAndEnableFilters [1, 2, 3] gapWorld) =
             Throws (FilterNotFound 2) w'"
    using w'(1) idle by simp
  have rq: "requiresLoader gapWorld 1" using g(1) nl(1) by (simp add: requiresLoader_def)
  then have n: "thrown (addAndEnableFilters [1, 2, 3] gapWorld) = None"
    using th by simp
  from rq th obtain p1 fid p2 r where
    "[1] = p1 @ fid # p2"
    "inflight (worldOf (addAndEnableFilters [1, 2, 3] gapWorld)) =
       inflight gapWorld @ [Pending r fid (p2 @ 2 # [3])]"
    by auto
  then have fl: "\<exists>p1 fid p2 r. [1] = p1 @ fid # p2 \<and>
      inflight (worldOf (addAndEnableFilters [1, 2, 3] gapWorld)) =
        [Pending r fid (p2 @ [2, 3])]"
    using idle by (intro exI [of _ p1] exI [of _ fid] exI [of _ p2] exI [of _ r]) simp
  have r: "\<not> requiresLoader gapWorldInstalled 1" using gi(1) nl(2) by (simp add: requiresLoader_def)
  then have t: "thrown (addAndEnableFilters [1, 2, 3] gapWorldInstalled) = Some (FilterNotFound 2)"
    using thi by simp
  show ?thesis using sp g gi s w'(2) lc v(1) a rq n fl r t by simp
qed

section \<open>Properties of group seeding\<close>

text \<open>
  C2, as stated, fails in its last part: the second \<^verbatim>\<open>enableFiltersGroup\<close> emits no
  event. \<^verbatim>\<open>enableGroup\<close> returns at once for a group that is enabled, so the trace after
  the second call is the trace after the first.
\<close>

theorem enableFiltersGroup_twice_counterexample:
  "getGroup seedWorld 7 = Some 0 \<and> enabledG (groups seedWorld ! 0) = None \<and>
   trace (worldOf (enableFiltersGroup exampleEnv 7 seedWorld)) =
     [LoadRequested 3, Notify FILTER_GROUP_ENABLE_DISABLE 7] \<and>
   trace (worldOf (enableFiltersGroup exampleEnv 7
                     (worldOf (enableFiltersGroup exampleEnv 7 seedWorld)))) =
     [LoadRequested 3, Notify FILTER_GROUP_ENABLE_DISABLE 7]"
  by code_simp

text \<open>
  C2, amended: for a group of the catalog that was never toggled, the first
  \<^verbatim>\<open>enableFiltersGroup\<close> returns normally; it runs \<^verbatim>\<open>addAndEnableFilters\<close> on the
  group's recommended filter ids and then \<^verbatim>\<open>enableGroup\<close>, which leaves the group
  enabled with exactly one \<^verbatim>\<open>FILTER_GROUP_ENABLE_DISABLE\<close> event for it; once the loader
  has answered the loads of the batch (loads of earlier calls may be in flight and stay
  so), every recommended filter is installed and enabled, except those whose load failed.
  A second call changes nothing: no seeding, no loader call and no event.
\<close>

theorem enableFiltersGroup_twice:
  "getGroup w gid = Some g \<Longrightarrow> enabledG (groups w ! g) = None \<Longrightarrow>
   (\<exists>w1. enableFiltersGroup e gid w = Normal w1 \<and>
         w1 = enableGroup gid
                (worldOf (addAndEnableFilters (fst (getRecommendedFilterIdsByGroupId e gid w))
                                              (snd (getRecommendedFilterIdsByGroupId e gid w)))) \<and>
         enabledG (groups w1 ! g) = Some True \<and> isGroupEnabled w1 gid \<and>
         groupEvents gid (trace w1) =
           groupEvents gid (trace w) @ [Notify FILTER_GROUP_ENABLE_DISABLE gid] \<and>
         enableFiltersGroup e gid w1 = Normal w1 \<and>
         (\<forall>ok n. length (fst (getRecommendedFilterIdsByGroupId e gid w)) \<le> n \<longrightarrow>
            (\<exists>wf. settle (length (inflight w)) ok n (Normal w1) = Normal wf \<and>
                  inflight wf = inflight w \<and>
                  (\<forall>fid r. fid \<in> set (fst (getRecommendedFilterIdsByGroupId e gid w)) \<longrightarrow>
                     getFilter w fid = Some r \<longrightarrow>
                     needsLoad w r \<and> \<not> ok fid \<or>
                     isFilterEnabled wf fid \<and> truthy (installed (filters wf ! r))))))"
proof -
  assume g: "getGroup w gid = Some g" and un: "enabledG (groups w ! g) = None"
  define ids where "ids = fst (getRecommendedFilterIdsByGroupId e gid w)"
  define wR where "wR = snd (getRecommendedFilterIdsByGroupId e gid w)"
  define wB where "wB = worldOf (addAndEnableFilters ids wR)"
  define w1 where "w1 = enableGroup gid wB"
  have rec: "getRecommendedFilterIdsByGroupId e gid w = (ids, wR)"
    by (simp add: ids_def wR_def)
  have ss: "sameState w wR" unfolding wR_def by (rule sameState_getRecommended)
  note lk = sameState_lookup [OF ss]
  have gl: "g < length (groups w)" using getGroup_Some [OF g] by simp
  have gR: "getGroup wR gid = Some g" "enabledG (groups wR ! g) = None"
    using lk(2) [of gid] lk(3) [OF gl] g un by simp_all
  have pres: "\<forall>x\<in>set (removeDuplicates ids). getFilter wR x \<noteq> None"
    using recommended_present [of _ e gid w] by (simp add: ids_def wR_def)
  note seeds = loadNextFilter_seeds [OF pres gR(1)]
  have nb: "addAndEnableFilters ids wR = Normal wB"
    using seeds unfolding wB_def addAndEnableFilters_eq
    by (cases "loadNextFilter (removeDuplicates ids) wR") simp_all
  have tg: "groupToggled gid g wR wB" using seeds by (simp add: wB_def addAndEnableFilters_eq)
  have first: "enableFiltersGroup e gid w = Normal w1"
    using g un rec nb by (simp add: enableFiltersGroup_def w1_def)
  have gB: "getGroup wB gid = Some g" using getGroup_toggled [OF tg] gR(1) by simp
  have tr: "groupEvents gid (trace wR) = groupEvents gid (trace w)"
    using ss by (simp add: sameState_def)
  have en: "enabledG (groups w1 ! g) = Some True \<and>
            groupEvents gid (trace w1) =
              groupEvents gid (trace w) @ [Notify FILTER_GROUP_ENABLE_DISABLE gid]"
  proof (cases "enabledG (groups wB ! g)")
    case None
    then have "groupEvents gid (trace wB) = groupEvents gid (trace wR)"
      using tg by (simp add: groupToggled_def)
    then show ?thesis
      using enableGroup_fresh(1,2) [OF gB None] tr by (simp add: w1_def groupEvents_def)
  next
    case (Some b)
    then have "enabledG (groups wB ! g) = Some True \<and>
      groupEvents gid (trace wB) =
        groupEvents gid (trace wR) @ [Notify FILTER_GROUP_ENABLE_DISABLE gid]"
      using tg gR(2) by (auto simp: groupToggled_def)
    then show ?thesis using enableGroup_on [OF gB] tr by (simp add: w1_def)
  qed
  have g1: "getGroup w1 gid = Some g"
    unfolding w1_def using gB by (simp add: getGroup_def findIndex_groupIdG)
  have ige: "isGroupEnabled w1 gid" using g1 en by (simp add: isGroupEnabled_def truthy_def)
  have second: "enableFiltersGroup e gid w1 = Normal w1"
    using enableFiltersGroup_again [OF g1] en by simp
  have later: "\<exists>wf. settle (length (inflight w)) ok n (Normal w1) = Normal wf \<and>
                     inflight wf = inflight w \<and>
                     (\<forall>fid r. fid \<in> set ids \<longrightarrow> getFilter w fid = Some r \<longrightarrow>
                        needsLoad w r \<and> \<not> ok fid \<or>
                        isFilterEnabled wf fid \<and> truthy (installed (filters wf ! r)))"
    if n: "length ids \<le> n" for ok n
  proof -
    let ?k = "length (inflight w)"
    have iR: "inflight wR = inflight w" using ss by (simp add: sameState_def)
    have n': "length (removeDuplicates ids) \<le> n"
      using n length_removeDuplicates [of ids] by simp
    from sequentially_props [OF removeDuplicates_distinct pres, of ok] obtain wS where sp:
      "sequentially ok (removeDuplicates ids) wR = Normal wS \<and> inflight wS = inflight wR \<and>
        (\<forall>y. getFilter wS y = getFilter wR y) \<and>
        filter isLoad (trace wS) =
          filter isLoad (trace wR) @ loaderCalls ok wR (removeDuplicates ids) \<and>
        (\<forall>y r. y \<notin> set (removeDuplicates ids) \<longrightarrow> getFilter wR y = Some r \<longrightarrow>
           filters wS ! r = filters wR ! r \<and> filtersState wS y = filtersState wR y) \<and>
        (\<forall>x r. x \<in> set (removeDuplicates ids) \<longrightarrow> getFilter wR x = Some r \<longrightarrow>
           (if needsLoad wR r \<and> \<not> ok x
            then filters wS ! r = filters wR ! r \<and> filtersState wS x = filtersState wR x
            else isFilterEnabled wS x \<and> truthy (installed (filters wS ! r))))" ..
    have sB: "settle ?k ok n (Normal wB) = Normal wS"
      using settle_refines [OF n', of wR ok] sp nb iR by (simp add: addAndEnableFilters_eq)
    have "filtersAgree w1 wB" by (simp add: w1_def filtersAgree_def)
    then have "outcomesAgree (settle ?k ok n (Normal w1)) (settle ?k ok n (Normal wB))"
      by (intro agree_settle) simp
    then obtain wf where wf: "settle ?k ok n (Normal w1) = Normal wf" "filtersAgree wf wS"
      unfolding sB by (cases rule: outcomesAgree_cases) simp_all
    have i: "inflight wf = inflight w" using wf(2) sp iR by (simp add: filtersAgree_def)
    have "needsLoad w r \<and> \<not> ok fid \<or>
          isFilterEnabled wf fid \<and> truthy (installed (filters wf ! r))"
      if "fid \<in> set ids" "getFilter w fid = Some r" for fid r
    proof -
      have gr: "getFilter wR fid = Some r" using lk(1) [of fid] that(2) by simp
      have nl: "needsLoad wR r = needsLoad w r" using lk(4) [OF that(2)] .
      have "if needsLoad wR r \<and> \<not> ok fid
            then filters wS ! r = filters wR ! r \<and> filtersState wS fid = filtersState wR fid
            else isFilterEnabled wS fid \<and> truthy (installed (filters wS ! r))"
        using sp that(1) gr by simp
      moreover have "isFilterEnabled wf fid = isFilterEnabled wS fid"
        using filtersAgree_lookup(2) [OF wf(2)] .
      moreover have "filters wf = filters wS" using wf(2) by (simp add: filtersAgree_def)
      ultimately show ?thesis using nl by (auto split: if_splits)
    qed
    then show ?thesis using wf(1) i by blast
  qed
  show ?thesis
  proof (rule exI [of _ w1], intro conjI impI allI)
    show "enableFiltersGroup e gid w = Normal w1" by (rule first)
    show "w1 = enableGroup gid
                (worldOf (addAndEnableFilters (fst (getRecommendedFilterIdsByGroupId e gid w))
                                              (snd (getRecommendedFilterIdsByGroupId e gid w))))"
      by (simp add: w1_def wB_def ids_def wR_def)
    show "enabledG (groups w1 ! g) = Some True" using en by simp
    show "isGroupEnabled w1 gid" by (rule ige)
    show "groupEvents gid (trace w1) =
           groupEvents gid (trace w) @ [Notify FILTER_GROUP_ENABLE_DISABLE gid]" using en by simp
    show "enableFiltersGroup e gid w1 = Normal w1" by (rule second)
  next
    fix ok n
    assume "length (fst (getRecommendedFilterIdsByGroupId e gid w)) \<le> n"
    then show "\<exists>wf. settle (length (inflight w)) ok n (Normal w1) = Normal wf \<and>
                     inflight wf = inflight w \<and>
                     (\<forall>fid r. fid \<in> set (fst (getRecommendedFilterIdsByGroupId e gid w)) \<longrightarrow>
                        getFilter w fid = Some r \<longrightarrow>
                        needsLoad w r \<and> \<not> ok fid \<or>
                        isFilterEnabled wf fid \<and> truthy (installed (filters wf ! r)))"
      using later [of n ok] by (simp add: ids_def)
  qed
qed

text \<open>
  Witness for C2: group \<open>7\<close> with its recommended filter \<open>3\<close>, whose load succeeds.
\<close>

theorem enableFiltersGroup_twice_witness:
  "getGroup seedWorld 7 = Some 0 \<and> enabledG (groups seedWorld ! 0) = None \<and>
   inflight seedWorld = [] \<and> fst (getRecommendedFilterIdsByGroupId exampleEnv 7 seedWorld) = [3] \<and>
   (\<exists>w1. enableFiltersGroup exampleEnv 7 seedWorld = Normal w1 \<and> isGroupEnabled w1 7 \<and>
         groupEvents 7 (trace w1) = [Notify FILTER_GROUP_ENABLE_DISABLE 7] \<and>
         enableFiltersGroup exampleEnv 7 w1 = Normal w1 \<and>
         (\<exists>wf. settle 0 (\<lambda>fid. True) 1 (Normal w1) = Normal wf \<and> inflight wf = [] \<and>
               isFilterEnabled wf 3 \<and> truthy (installed (filters wf ! 0))))"
proof -
  have g: "getGroup seedWorld 7 = Some 0" and un: "enabledG (groups seedWorld ! 0) = None"
    and idle: "inflight seedWorld = []" and t: "groupEvents 7 (trace seedWorld) = []"
    and gf: "getFilter seedWorld 3 = Some 0"
    by (simp_all add: seedWorld_def mkWorld_def mkFilter_def getGroup_def getFilter_def
          groupEvents_def)
  have r: "fst (getRecommendedFilterIdsByGroupId exampleEnv 7 seedWorld) = [3]"
    by code_simp
  from enableFiltersGroup_twice [OF g un, of exampleEnv] obtain w1 where w1:
    "enableFiltersGroup exampleEnv 7 seedWorld = Normal w1" "isGroupEnabled w1 7"
    "groupEvents 7 (trace w1) =
       groupEvents 7 (trace seedWorld) @ [Notify FILTER_GROUP_ENABLE_DISABLE 7]"
    "enableFiltersGroup exampleEnv 7 w1 = Normal w1"
    "\<forall>ok n. length (fst (getRecommendedFilterIdsByGroupId exampleEnv 7 seedWorld)) \<le> n \<longrightarrow>
          (\<exists>wf. settle (length (inflight seedWorld)) ok n (Normal w1) = Normal wf \<and>
                inflight wf = inflight seedWorld \<and>
                (\<forall>fid r. fid \<in> set (fst (getRecommendedFilterIdsByGroupId exampleEnv 7 seedWorld)) \<longrightarrow>
                   getFilter seedWorld fid = Some r \<longrightarrow>
                   needsLoad seedWorld r \<and> \<not> ok fid \<or>
                   isFilterEnabled wf fid \<and> truthy (installed (filters wf ! r))))"
    by blast
  have "length (fst (getRecommendedFilterIdsByGroupId exampleEnv 7 seedWorld)) \<le> 1"
    using r by simp
  with w1(5) obtain wf where wf0:
    "settle (length (inflight seedWorld)) (\<lambda>fid. True) 1 (Normal w1) = Normal wf"
    "inflight wf = inflight seedWorld"
    "\<forall>fid r. fid \<in> set (fst (getRecommendedFilterIdsByGroupId exampleEnv 7 seedWorld)) \<longrightarrow>
        getFilter seedWorld fid = Some r \<longrightarrow>
        needsLoad seedWorld r \<and> \<not> True \<or>
        isFilterEnabled wf fid \<and> truthy (installed (filters wf ! r))"
    by blast
  have wf: "settle 0 (\<lambda>fid. True) 1 (Normal w1) = Normal wf" "inflight wf = []"
    "\<forall>fid r. fid \<in> set [3] \<longrightarrow> getFilter seedWorld fid = Some r \<longrightarrow>
        needsLoad seedWorld r \<and> \<not> True \<or>
        isFilterEnabled wf fid \<and> truthy (installed (filters wf ! r))"
    using wf0 idle r by simp_all
  have e: "isFilterEnabled wf 3 \<and> truthy (installed (filters wf ! 0))"
    using wf(3) gf by simp
  show ?thesis using g un idle r w1(1,2,3,4) t wf(1,2) e by auto
qed

end
